theory Spec2Isabelle
  imports Complex_Main "HOL-Library.AList" "HOL-Library.Multiset" "HOL-Library.Option_ord"
begin

section \<open>Data model\<close>

text \<open>
  A relation instance is a dictionary with the keys \<open>triplet\<close>, \<open>sub_traj\<close>,
  \<open>obj_traj\<close> and \<open>duration\<close>; a predicted instance carries a \<open>score\<close> as well.
  The triplet is the value of \<open>tuple(r['triplet'])\<close>, compared by value; trajectories
  are only ever handed to \<open>viou\<close>, so their type is left open.  Scores, overlaps and
  the threshold are finite floats and are modelled as reals; the only non-finite
  values the code creates itself are the miss sentinel \<open>-inf\<close> and the \<open>nan\<close> that
  \<open>np.mean\<close> gives on an empty list.
\<close>

record ('tr, 'tj) relation =
  triplet :: 'tr
  sub_traj :: 'tj
  obj_traj :: 'tj
  duration :: "int \<times> int"

record ('tr, 'tj) pred_relation = "('tr, 'tj) relation" +
  score :: real

datatype npfloat = NegInf | Fin real

datatype npmean = NaN | Mean real

datatype 'v error = KeyError 'v | KeyError_int nat | ValueError | IndexError | SystemExit int

type_synonym 'tj viou_fn = "'tj \<Rightarrow> int \<times> int \<Rightarrow> 'tj \<Rightarrow> int \<times> int \<Rightarrow> real"

type_synonym voc_ap_fn = "real list \<Rightarrow> real list \<Rightarrow> real"

section \<open>numpy helpers\<close>

fun isfinite :: "npfloat \<Rightarrow> bool" where
  "isfinite NegInf = False"
| "isfinite (Fin x) = True"

text \<open>\<open>ov > ov_max\<close> for a finite \<open>ov\<close> and an \<open>ov_max\<close> that starts at \<open>-inf\<close>.\<close>

fun gt_float :: "real \<Rightarrow> npfloat \<Rightarrow> bool" where
  "gt_float x NegInf = True"
| "gt_float x (Fin y) = (y < x)"

text \<open>\<open>np.finfo(np.float32).eps\<close>\<close>

definition eps :: real where
  "eps = 1 / 2 ^ 23"

text \<open>\<open>np.cumsum\<close> of a boolean array: the running count of \<open>True\<close>.\<close>

fun cumsum_from :: "nat \<Rightarrow> bool list \<Rightarrow> nat list" where
  "cumsum_from a [] = []"
| "cumsum_from a (b # bs) = (a + of_bool b) # cumsum_from (a + of_bool b) bs"

definition cumsum :: "bool list \<Rightarrow> nat list" where
  "cumsum bs = cumsum_from 0 bs"

text \<open>
  The tail both evaluation functions share (lines 29-35 and 53-59): from the hit
  scores and the recall denominator to \<open>(prec, rec, hit_scores)\<close>.
\<close>

definition curves :: "nat \<Rightarrow> npfloat list \<Rightarrow> real list \<times> real list \<times> npfloat list" where
  "curves n_gt hit_scores =
     (let tp = map isfinite hit_scores;
          fp = map Not tp;
          cum_tp = map real (cumsum tp);
          cum_fp = map real (cumsum fp);
          rec = map (\<lambda>c. c / max (real n_gt) eps) cum_tp;
          prec = map (\<lambda>(t, f). t / max (t + f) eps) (zip cum_tp cum_fp)
      in (prec, rec, hit_scores))"

text \<open>\<open>sorted(pred_relations, key=lambda x: x['score'], reverse=True)\<close>: stable.\<close>

definition sort_by_score :: "('tr, 'tj) pred_relation list \<Rightarrow> ('tr, 'tj) pred_relation list" where
  "sort_by_score pred_relations = sort_key (\<lambda>x. - score x) pred_relations"

section \<open>eval_detection_scores\<close>

text \<open>One round of the inner loop (lines 15-25); the state is \<open>(ov_max, k_max)\<close>.\<close>

definition inner_step ::
  "'tj viou_fn \<Rightarrow> real \<Rightarrow> bool list \<Rightarrow> ('tr, 'tj) pred_relation
    \<Rightarrow> npfloat \<times> int \<Rightarrow> nat \<times> ('tr, 'tj) relation \<Rightarrow> npfloat \<times> int" where
  "inner_step viou viou_threshold gt_detected pred_relation st x =
     (case st of (ov_max, k_max) \<Rightarrow> case x of (gt_idx, gt_relation) \<Rightarrow>
        if \<not> gt_detected ! gt_idx \<and> triplet pred_relation = triplet gt_relation then
          let s_iou = viou (sub_traj pred_relation) (duration pred_relation)
                           (sub_traj gt_relation) (duration gt_relation);
              o_iou = viou (obj_traj pred_relation) (duration pred_relation)
                           (obj_traj gt_relation) (duration gt_relation);
              ov = min s_iou o_iou
          in if viou_threshold \<le> ov \<and> gt_float ov ov_max then (Fin ov, int gt_idx)
             else (ov_max, k_max)
        else (ov_max, k_max))"

fun inner_loop ::
  "'tj viou_fn \<Rightarrow> real \<Rightarrow> bool list \<Rightarrow> ('tr, 'tj) pred_relation
    \<Rightarrow> (nat \<times> ('tr, 'tj) relation) list \<Rightarrow> npfloat \<times> int \<Rightarrow> npfloat \<times> int" where
  "inner_loop viou thr gt_detected p [] st = st"
| "inner_loop viou thr gt_detected p (x # xs) st =
     inner_loop viou thr gt_detected p xs (inner_step viou thr gt_detected p st x)"

definition find_match ::
  "'tj viou_fn \<Rightarrow> real \<Rightarrow> ('tr, 'tj) relation list \<Rightarrow> bool list
    \<Rightarrow> ('tr, 'tj) pred_relation \<Rightarrow> npfloat \<times> int" where
  "find_match viou thr gt_relations gt_detected p =
     inner_loop viou thr gt_detected p (enumerate 0 gt_relations) (NegInf, - 1)"

text \<open>The outer loop (lines 12-28); the state is \<open>(gt_detected, hit_scores)\<close>.\<close>

fun match_loop ::
  "'tj viou_fn \<Rightarrow> real \<Rightarrow> ('tr, 'tj) relation list
    \<Rightarrow> (nat \<times> ('tr, 'tj) pred_relation) list
    \<Rightarrow> bool list \<times> npfloat list \<Rightarrow> bool list \<times> npfloat list" where
  "match_loop viou thr gts [] st = st"
| "match_loop viou thr gts ((pred_idx, p) # rest) (gt_detected, hit_scores) =
     (let k_max = snd (find_match viou thr gts gt_detected p)
      in if 0 \<le> k_max
         then match_loop viou thr gts rest
                (gt_detected[nat k_max := True], hit_scores[pred_idx := Fin (score p)])
         else match_loop viou thr gts rest (gt_detected, hit_scores))"

definition detection_hits ::
  "'tj viou_fn \<Rightarrow> real \<Rightarrow> ('tr, 'tj) relation list \<Rightarrow> ('tr, 'tj) pred_relation list
    \<Rightarrow> bool list \<times> npfloat list" where
  "detection_hits viou thr gt_relations pred_relations =
     (let preds = sort_by_score pred_relations;
          gt_detected = replicate (length gt_relations) False;
          hit_scores = replicate (length preds) NegInf
      in match_loop viou thr gt_relations (enumerate 0 preds) (gt_detected, hit_scores))"

definition eval_detection_scores ::
  "'tj viou_fn \<Rightarrow> ('tr, 'tj) relation list \<Rightarrow> ('tr, 'tj) pred_relation list \<Rightarrow> real
    \<Rightarrow> real list \<times> real list \<times> npfloat list" where
  "eval_detection_scores viou gt_relations pred_relations viou_threshold =
     curves (length gt_relations)
       (snd (detection_hits viou viou_threshold gt_relations pred_relations))"

section \<open>eval_tagging_scores\<close>

text \<open>Lines 42-48: the state is \<open>(pred_triplets, hit_scores)\<close>.\<close>

fun dedup_loop ::
  "('tr, 'tj) pred_relation list \<Rightarrow> 'tr list \<times> real list \<Rightarrow> 'tr list \<times> real list" where
  "dedup_loop [] st = st"
| "dedup_loop (r # rs) (pred_triplets, hit_scores) =
     (if triplet r \<notin> set pred_triplets
      then dedup_loop rs (pred_triplets @ [triplet r], hit_scores @ [score r])
      else dedup_loop rs (pred_triplets, hit_scores))"

text \<open>Lines 49-52: a retained triplet outside the ground-truth set becomes \<open>-inf\<close>.\<close>

definition mark_misses :: "'tr set \<Rightarrow> 'tr list \<Rightarrow> real list \<Rightarrow> npfloat list" where
  "mark_misses gt_triplets pred_triplets hit_scores =
     map (\<lambda>(t, s). if t \<notin> gt_triplets then NegInf else Fin s) (zip pred_triplets hit_scores)"

definition eval_tagging_scores ::
  "('tr, 'tj) relation list \<Rightarrow> ('tr, 'tj) pred_relation list
    \<Rightarrow> real list \<times> real list \<times> npfloat list" where
  "eval_tagging_scores gt_relations pred_relations =
     (let preds = sort_by_score pred_relations;
          gt_triplets = set (map triplet gt_relations);
          (pred_triplets, hit_scores) = dedup_loop preds ([], [])
      in curves (card gt_triplets) (mark_misses gt_triplets pred_triplets hit_scores))"

section \<open>Aggregation: the accumulators\<close>

text \<open>
  The accumulators of \<open>evaluate\<close> and \<open>evaluate_segs\<close>.  \<open>video_ap\<close> (\<open>seg_ap\<close> in
  \<open>evaluate_segs\<close>) is a dict, kept in insertion order; the three \<open>defaultdict(list)\<close>
  are total functions that start at the empty list; \<open>tot_relations\<close> is
  \<open>tot_gt_relations\<close> or \<open>tot_pred_relations\<close>.  The ranks in \<open>det_nreturns\<close> and
  \<open>tag_nreturns\<close> are natural numbers.
\<close>

record 'v acc =
  video_ap :: "('v \<times> real) list"
  tot_scores :: "nat \<Rightarrow> npfloat list list"
  tot_tp :: "nat \<Rightarrow> bool list list"
  prec_at_n :: "nat \<Rightarrow> real list"
  tot_relations :: nat

definition init_acc :: "'v acc" where
  "init_acc = \<lparr>video_ap = [], tot_scores = (\<lambda>_. []), tot_tp = (\<lambda>_. []),
               prec_at_n = (\<lambda>_. []), tot_relations = 0\<rparr>"

text \<open>Lines 158-162 (and 91-95, 205-209).\<close>

definition det_accumulate :: "npfloat list \<Rightarrow> nat list \<Rightarrow> 'v acc \<Rightarrow> 'v acc" where
  "det_accumulate det_scores det_nreturns st =
     (let tp = map isfinite det_scores
      in fold (\<lambda>nre s.
           let cut_off = min nre (length det_scores)
           in s\<lparr>tot_scores := (tot_scores s)(nre := tot_scores s nre @ [take cut_off det_scores]),
                tot_tp := (tot_tp s)(nre := tot_tp s nre @ [take cut_off tp])\<rparr>)
         det_nreturns st)"

text \<open>Lines 165-170 (and 98-103, 212-217).\<close>

definition tag_accumulate :: "real list \<Rightarrow> nat list \<Rightarrow> 'v acc \<Rightarrow> 'v acc" where
  "tag_accumulate tag_prec tag_nreturns st =
     fold (\<lambda>nre s.
        let cut_off = min nre (length tag_prec)
        in if 0 < cut_off
           then s\<lparr>prec_at_n := (prec_at_n s)(nre := prec_at_n s nre @ [tag_prec ! (cut_off - 1)])\<rparr>
           else s\<lparr>prec_at_n := (prec_at_n s)(nre := prec_at_n s nre @ [0])\<rparr>)
       tag_nreturns st"

text \<open>
  The body the three video loops share, from the call of \<open>eval_detection_scores\<close>
  to the end of the tagging loop; \<open>key\<close> is the key written in \<open>video_ap\<close>.
\<close>

definition video_body ::
  "'tj viou_fn \<Rightarrow> voc_ap_fn \<Rightarrow> real \<Rightarrow> nat list \<Rightarrow> nat list \<Rightarrow> 'v
    \<Rightarrow> ('tr, 'tj) relation list \<Rightarrow> ('tr, 'tj) pred_relation list \<Rightarrow> 'v acc \<Rightarrow> 'v acc" where
  "video_body viou voc_ap viou_threshold det_nreturns tag_nreturns key gt_relations pred_relations st =
     (case eval_detection_scores viou gt_relations pred_relations viou_threshold of
        (det_prec, det_rec, det_scores) \<Rightarrow>
          let st1 = st\<lparr>video_ap := AList.update key (voc_ap det_rec det_prec) (video_ap st)\<rparr>;
              st2 = det_accumulate det_scores det_nreturns st1
          in case eval_tagging_scores gt_relations pred_relations of
               (tag_prec, tag_rec, tag_scores) \<Rightarrow> tag_accumulate tag_prec tag_nreturns st2)"

section \<open>Aggregation: the final scalars\<close>

definition np_mean :: "real list \<Rightarrow> npmean" where
  "np_mean xs = (if xs = [] then NaN else Mean (sum_list xs / real (length xs)))"

definition np_concatenate :: "'a list list \<Rightarrow> 'v error + 'a list" where
  "np_concatenate xss = (if xss = [] then Inl ValueError else Inr (concat xss))"

text \<open>
  \<open>np.argsort\<close>, ascending.  numpy leaves the order of equal scores open; the only
  value read from the sorted array is its last cumulative sum, which no permutation
  changes (lemma \<open>last_cumsum_perm\<close> below).
\<close>

fun sort_value :: "npfloat \<Rightarrow> real option" where
  "sort_value NegInf = None"
| "sort_value (Fin x) = Some x"

definition argsort :: "npfloat list \<Rightarrow> nat list" where
  "argsort scores = sort_key (\<lambda>i. sort_value (scores ! i)) [0..<length scores]"

text \<open>Lines 176-182 for one \<open>nre\<close>; \<open>rec[-1]\<close> raises on an empty array.\<close>

definition recall_at :: "'v acc \<Rightarrow> nat \<Rightarrow> 'v error + real" where
  "recall_at st nre =
     (case np_concatenate (tot_scores st nre) of
        Inl e \<Rightarrow> Inl e
      | Inr scores \<Rightarrow>
          (case np_concatenate (tot_tp st nre) of
             Inl e \<Rightarrow> Inl e
           | Inr tps \<Rightarrow>
               let sort_indices = rev (argsort scores);
                   tps' = map (\<lambda>i. tps ! i) sort_indices;
                   cum_tp = map real (cumsum tps');
                   rec = map (\<lambda>c. c / max (real (tot_relations st)) eps) cum_tp
               in if rec = [] then Inl IndexError else Inr (last rec)))"

fun recall_loop ::
  "'v acc \<Rightarrow> nat list \<Rightarrow> (nat \<rightharpoonup> real) \<Rightarrow> 'v error + (nat \<rightharpoonup> real)" where
  "recall_loop st [] rec_at_n = Inr rec_at_n"
| "recall_loop st (nre # ns) rec_at_n =
     (case recall_at st nre of
        Inl e \<Rightarrow> Inl e
      | Inr r \<Rightarrow> recall_loop st ns (rec_at_n(nre \<mapsto> r)))"

definition mprec_loop :: "'v acc \<Rightarrow> nat list \<Rightarrow> (nat \<rightharpoonup> npmean)" where
  "mprec_loop st tag_nreturns =
     fold (\<lambda>nre m. m(nre \<mapsto> np_mean (prec_at_n st nre))) tag_nreturns Map.empty"

text \<open>The six prints at the end read fixed keys of the two result dicts.\<close>

type_synonym result = "npmean \<times> (nat \<rightharpoonup> real) \<times> (nat \<rightharpoonup> npmean)"

definition report :: "result \<Rightarrow> 'v error + result" where
  "report res =
     (case res of (mean_ap, rec_at_n, mprec_at_n) \<Rightarrow>
        if rec_at_n 50 = None then Inl (KeyError_int 50)
        else if rec_at_n 100 = None then Inl (KeyError_int 100)
        else if mprec_at_n 1 = None then Inl (KeyError_int 1)
        else if mprec_at_n 5 = None then Inl (KeyError_int 5)
        else if mprec_at_n 10 = None then Inl (KeyError_int 10)
        else Inr res)"

text \<open>Lines 171-186 and the prints.\<close>

definition finish :: "'v acc \<Rightarrow> nat list \<Rightarrow> nat list \<Rightarrow> 'v error + result" where
  "finish st det_nreturns tag_nreturns =
     (let mean_ap = np_mean (map snd (video_ap st))
      in case recall_loop st det_nreturns Map.empty of
           Inl e \<Rightarrow> Inl e
         | Inr rec_at_n \<Rightarrow> report (mean_ap, rec_at_n, mprec_loop st tag_nreturns))"

section \<open>evaluate\<close>

text \<open>
  \<open>groundtruth\<close> and \<open>prediction\<close> are dicts: association lists in insertion order,
  read with \<open>map_of\<close>; a missing key raises \<open>KeyError\<close>.  \<open>viou\<close> and \<open>voc_ap\<close> come
  from the module \<open>common\<close> and are parameters.
\<close>

fun gt_videos_loop ::
  "'tj viou_fn \<Rightarrow> voc_ap_fn \<Rightarrow> real \<Rightarrow> nat list \<Rightarrow> nat list
    \<Rightarrow> ('v \<times> ('tr, 'tj) pred_relation list) list
    \<Rightarrow> ('v \<times> ('tr, 'tj) relation list) list \<Rightarrow> 'v acc \<Rightarrow> 'v error + 'v acc" where
  "gt_videos_loop viou voc_ap thr dn tn prediction [] st = Inr st"
| "gt_videos_loop viou voc_ap thr dn tn prediction ((vid, gt_relations) # rest) st =
     (if length gt_relations = 0 then gt_videos_loop viou voc_ap thr dn tn prediction rest st
      else
        let st1 = st\<lparr>tot_relations := tot_relations st + length gt_relations\<rparr>
        in case map_of prediction vid of
             None \<Rightarrow> Inl (KeyError vid)
           | Some predict_relations \<Rightarrow>
               gt_videos_loop viou voc_ap thr dn tn prediction rest
                 (video_body viou voc_ap thr dn tn vid gt_relations predict_relations st1))"

fun pred_videos_loop ::
  "'tj viou_fn \<Rightarrow> voc_ap_fn \<Rightarrow> real \<Rightarrow> nat list \<Rightarrow> nat list
    \<Rightarrow> ('v \<times> ('tr, 'tj) relation list) list
    \<Rightarrow> ('v \<times> ('tr, 'tj) pred_relation list) list \<Rightarrow> 'v acc \<Rightarrow> 'v error + 'v acc" where
  "pred_videos_loop viou voc_ap thr dn tn groundtruth [] st = Inr st"
| "pred_videos_loop viou voc_ap thr dn tn groundtruth ((vid, pred_relations) # rest) st =
     (if length pred_relations = 0 then pred_videos_loop viou voc_ap thr dn tn groundtruth rest st
      else
        let st1 = st\<lparr>tot_relations := tot_relations st + length pred_relations\<rparr>
        in case map_of groundtruth vid of
             None \<Rightarrow> Inl (KeyError vid)
           | Some gt_relations \<Rightarrow>
               pred_videos_loop viou voc_ap thr dn tn groundtruth rest
                 (video_body viou voc_ap thr dn tn vid gt_relations pred_relations st1))"

definition evaluate ::
  "'tj viou_fn \<Rightarrow> voc_ap_fn \<Rightarrow> ('v \<times> ('tr, 'tj) relation list) list
    \<Rightarrow> ('v \<times> ('tr, 'tj) pred_relation list) list \<Rightarrow> bool \<Rightarrow> real \<Rightarrow> nat list \<Rightarrow> nat list
    \<Rightarrow> 'v error + result" where
  "evaluate viou voc_ap groundtruth prediction base_on_gt viou_threshold det_nreturns tag_nreturns =
     (if base_on_gt then
        (case gt_videos_loop viou voc_ap viou_threshold det_nreturns tag_nreturns
                prediction groundtruth init_acc of
           Inl e \<Rightarrow> Inl e
         | Inr st \<Rightarrow> finish st det_nreturns tag_nreturns)
      else
        (case pred_videos_loop viou voc_ap viou_threshold det_nreturns tag_nreturns
                groundtruth prediction init_acc of
           Inl e \<Rightarrow> Inl e
         | Inr st \<Rightarrow> finish st det_nreturns tag_nreturns))"

section \<open>evaluate_segs\<close>

text \<open>Lines 85-103: every segment of the video is scored alone, under the key \<open>vid\<close>.\<close>

fun seg_loop ::
  "'tj viou_fn \<Rightarrow> voc_ap_fn \<Rightarrow> real \<Rightarrow> nat list \<Rightarrow> nat list \<Rightarrow> 'v
    \<Rightarrow> ('tr, 'tj) pred_relation list \<Rightarrow> ('tr, 'tj) relation list \<Rightarrow> 'v acc \<Rightarrow> 'v acc" where
  "seg_loop viou voc_ap thr dn tn vid pred_relations [] st = st"
| "seg_loop viou voc_ap thr dn tn vid pred_relations (each_gt_seg # rest) st =
     seg_loop viou voc_ap thr dn tn vid pred_relations rest
       (video_body viou voc_ap thr dn tn vid [each_gt_seg] pred_relations st)"

fun pred_segs_loop ::
  "'tj viou_fn \<Rightarrow> voc_ap_fn \<Rightarrow> real \<Rightarrow> nat list \<Rightarrow> nat list
    \<Rightarrow> ('v \<times> ('tr, 'tj) relation list) list
    \<Rightarrow> ('v \<times> ('tr, 'tj) pred_relation list) list \<Rightarrow> 'v acc \<Rightarrow> 'v error + 'v acc" where
  "pred_segs_loop viou voc_ap thr dn tn groundtruth [] st = Inr st"
| "pred_segs_loop viou voc_ap thr dn tn groundtruth ((vid, pred_relations) # rest) st =
     (if length pred_relations = 0 then pred_segs_loop viou voc_ap thr dn tn groundtruth rest st
      else
        let st1 = st\<lparr>tot_relations := tot_relations st + length pred_relations\<rparr>
        in case map_of groundtruth vid of
             None \<Rightarrow> Inl (KeyError vid)
           | Some gt_relations \<Rightarrow>
               pred_segs_loop viou voc_ap thr dn tn groundtruth rest
                 (seg_loop viou voc_ap thr dn tn vid pred_relations gt_relations st1))"

text \<open>The other branch prints \<open>What???\<close> and calls \<open>exit(0)\<close>, which raises \<open>SystemExit\<close>.\<close>

definition evaluate_segs ::
  "'tj viou_fn \<Rightarrow> voc_ap_fn \<Rightarrow> ('v \<times> ('tr, 'tj) relation list) list
    \<Rightarrow> ('v \<times> ('tr, 'tj) pred_relation list) list \<Rightarrow> bool \<Rightarrow> real \<Rightarrow> nat list \<Rightarrow> nat list
    \<Rightarrow> 'v error + result" where
  "evaluate_segs viou voc_ap groundtruth prediction base_on_gt viou_threshold det_nreturns tag_nreturns =
     (if \<not> base_on_gt then
        (case pred_segs_loop viou voc_ap viou_threshold det_nreturns tag_nreturns
                groundtruth prediction init_acc of
           Inl e \<Rightarrow> Inl e
         | Inr st \<Rightarrow> finish st det_nreturns tag_nreturns)
      else Inl (SystemExit 0))"

section \<open>evaluate_relation\<close>

text \<open>
  The dataset object comes from the module \<open>dataset\<close>: the video index of a split, the
  ground-truth relation instances of a video and the triplet vocabulary of a split.
\<close>

record ('v, 'tr, 'tj) dataset =
  get_index :: "string \<Rightarrow> 'v list"
  get_relation_insts :: "'v \<Rightarrow> ('tr, 'tj) relation list"
  get_triplets :: "string \<Rightarrow> 'tr set"

text \<open>Lines 39-50: the loop that builds the zero-shot ground truth and predictions.\<close>

fun zeroshot_loop ::
  "('v, 'tr, 'tj) dataset \<Rightarrow> 'tr set \<Rightarrow> ('v \<times> ('tr, 'tj) pred_relation list) list \<Rightarrow> 'v list
    \<Rightarrow> ('v \<times> ('tr, 'tj) relation list) list \<times> ('v \<times> ('tr, 'tj) pred_relation list) list
    \<Rightarrow> 'v error + ('v \<times> ('tr, 'tj) relation list) list \<times> ('v \<times> ('tr, 'tj) pred_relation list) list" where
  "zeroshot_loop dataset zeroshot_triplets prediction [] st = Inr st"
| "zeroshot_loop dataset zeroshot_triplets prediction (vid # rest) (groundtruth, zs_prediction) =
     (let gt_relations = get_relation_insts dataset vid;
          zs_gt_relations = filter (\<lambda>r. triplet r \<in> zeroshot_triplets) gt_relations
      in if 0 < length zs_gt_relations then
           (case map_of prediction vid of
              None \<Rightarrow> Inl (KeyError vid)
            | Some rs \<Rightarrow>
                zeroshot_loop dataset zeroshot_triplets prediction rest
                  (AList.update vid zs_gt_relations groundtruth,
                   AList.update vid (filter (\<lambda>r. triplet r \<in> zeroshot_triplets) rs) zs_prediction))
         else zeroshot_loop dataset zeroshot_triplets prediction rest (groundtruth, zs_prediction))"

text \<open>Lines 35-50: the inputs of the zero-shot pass.\<close>

definition zeroshot_inputs ::
  "('v, 'tr, 'tj) dataset \<Rightarrow> string \<Rightarrow> ('v \<times> ('tr, 'tj) pred_relation list) list
    \<Rightarrow> 'v error + ('v \<times> ('tr, 'tj) relation list) list \<times> ('v \<times> ('tr, 'tj) pred_relation list) list" where
  "zeroshot_inputs dataset split prediction =
     (let zeroshot_triplets = get_triplets dataset split - get_triplets dataset ''train''
      in zeroshot_loop dataset zeroshot_triplets prediction (get_index dataset split) ([], []))"

text \<open>
  \<open>evaluate_relation\<close>; \<open>eval_visual_relation\<close> and \<open>eval_visual_relation_segs\<close> are
  the two evaluators it imports from the package \<open>evaluation\<close>, called with their
  default arguments.
\<close>

definition evaluate_relation ::
  "(('v \<times> ('tr, 'tj) relation list) list \<Rightarrow> ('v \<times> ('tr, 'tj) pred_relation list) list
      \<Rightarrow> 'v error + result)
    \<Rightarrow> (('v \<times> ('tr, 'tj) relation list) list \<Rightarrow> ('v \<times> ('tr, 'tj) pred_relation list) list
      \<Rightarrow> 'v error + result)
    \<Rightarrow> ('v, 'tr, 'tj) dataset \<Rightarrow> string \<Rightarrow> ('v \<times> ('tr, 'tj) pred_relation list) list \<Rightarrow> bool
    \<Rightarrow> 'v error + unit" where
  "evaluate_relation eval_visual_relation eval_visual_relation_segs dataset split prediction segment =
     (let groundtruth =
            fold (\<lambda>vid g. AList.update vid (get_relation_insts dataset vid) g)
              (get_index dataset split) []
      in case (if segment then eval_visual_relation_segs groundtruth prediction
               else eval_visual_relation groundtruth prediction) of
           Inl e \<Rightarrow> Inl e
         | Inr res \<Rightarrow>
             (case zeroshot_inputs dataset split prediction of
                Inl e \<Rightarrow> Inl e
              | Inr (zs_groundtruth, zs_prediction) \<Rightarrow>
                  (case (if segment then eval_visual_relation_segs zs_groundtruth zs_prediction
                         else eval_visual_relation zs_groundtruth zs_prediction) of
                     Inl e \<Rightarrow> Inl e
                   | Inr res' \<Rightarrow> Inr ())))"

section \<open>Notions used in the statements\<close>

text \<open>
  The candidate overlap \<open>min(s_iou, o_iou)\<close> of a prediction and a ground-truth
  instance, and what lines 16-23 ask of a ground-truth index.
\<close>

definition overlap :: "'tj viou_fn \<Rightarrow> ('tr, 'tj) pred_relation \<Rightarrow> ('tr, 'tj) relation \<Rightarrow> real" where
  "overlap viou p g =
     min (viou (sub_traj p) (duration p) (sub_traj g) (duration g))
         (viou (obj_traj p) (duration p) (obj_traj g) (duration g))"

definition qualifies ::
  "'tj viou_fn \<Rightarrow> real \<Rightarrow> ('tr, 'tj) relation list \<Rightarrow> bool list
    \<Rightarrow> ('tr, 'tj) pred_relation \<Rightarrow> nat \<Rightarrow> bool" where
  "qualifies viou thr gts d p i \<longleftrightarrow>
     i < length gts \<and> \<not> d ! i \<and> triplet p = triplet (gts ! i) \<and> thr \<le> overlap viou p (gts ! i)"

text \<open>The invariant of the inner loop after the first \<open>n\<close> ground-truth instances.\<close>

definition best_upto ::
  "'tj viou_fn \<Rightarrow> real \<Rightarrow> ('tr, 'tj) relation list \<Rightarrow> bool list
    \<Rightarrow> ('tr, 'tj) pred_relation \<Rightarrow> nat \<Rightarrow> npfloat \<times> int \<Rightarrow> bool" where
  "best_upto viou thr gts d p n st \<longleftrightarrow>
     (st = (NegInf, - 1) \<and> (\<forall>j<n. \<not> qualifies viou thr gts d p j)) \<or>
     (\<exists>k<n. st = (Fin (overlap viou p (gts ! k)), int k) \<and> qualifies viou thr gts d p k \<and>
        (\<forall>j<n. qualifies viou thr gts d p j \<longrightarrow> overlap viou p (gts ! j) \<le> overlap viou p (gts ! k)))"

text \<open>
  The trace of the outer loop: the value of \<open>k_max\<close> at line 26 in each round, and
  the array \<open>gt_detected\<close> after the last round.
\<close>

fun claims ::
  "'tj viou_fn \<Rightarrow> real \<Rightarrow> ('tr, 'tj) relation list \<Rightarrow> ('tr, 'tj) pred_relation list
    \<Rightarrow> bool list \<Rightarrow> int list" where
  "claims viou thr gts [] d = []"
| "claims viou thr gts (p # ps) d =
     (let k = snd (find_match viou thr gts d p)
      in k # claims viou thr gts ps (if 0 \<le> k then d[nat k := True] else d))"

fun detected_after ::
  "'tj viou_fn \<Rightarrow> real \<Rightarrow> ('tr, 'tj) relation list \<Rightarrow> ('tr, 'tj) pred_relation list
    \<Rightarrow> bool list \<Rightarrow> bool list" where
  "detected_after viou thr gts [] d = d"
| "detected_after viou thr gts (p # ps) d =
     (let k = snd (find_match viou thr gts d p)
      in detected_after viou thr gts ps (if 0 \<le> k then d[nat k := True] else d))"

definition hits_of :: "int list \<Rightarrow> ('tr, 'tj) pred_relation list \<Rightarrow> npfloat list" where
  "hits_of ks ps = map (\<lambda>(k, p). if 0 \<le> k then Fin (score p) else NegInf) (zip ks ps)"

text \<open>
  Greedy claiming as the specification words it: the candidates of a prediction are
  the unclaimed instances of its triplet whose overlap reaches the threshold; with no
  candidate the rank is a miss, otherwise some candidate of maximal overlap is claimed.
\<close>

definition candidates ::
  "'tj viou_fn \<Rightarrow> real \<Rightarrow> ('tr, 'tj) relation list \<Rightarrow> nat set
    \<Rightarrow> ('tr, 'tj) pred_relation \<Rightarrow> nat list" where
  "candidates viou thr gts claimed p =
     filter (\<lambda>i. i \<notin> claimed \<and> triplet (gts ! i) = triplet p \<and> thr \<le> overlap viou p (gts ! i))
       [0..<length gts]"

fun greedy_claiming ::
  "'tj viou_fn \<Rightarrow> real \<Rightarrow> ('tr, 'tj) relation list \<Rightarrow> nat set
    \<Rightarrow> ('tr, 'tj) pred_relation list \<Rightarrow> npfloat list \<Rightarrow> bool" where
  "greedy_claiming viou thr gts claimed [] hs = (hs = [])"
| "greedy_claiming viou thr gts claimed (p # ps) [] = False"
| "greedy_claiming viou thr gts claimed (p # ps) (h # hs) =
     (let cands = candidates viou thr gts claimed p
      in if cands = [] then h = NegInf \<and> greedy_claiming viou thr gts claimed ps hs
         else h = Fin (score p) \<and>
           (\<exists>k \<in> set cands.
              (\<forall>j \<in> set cands. overlap viou p (gts ! j) \<le> overlap viou p (gts ! k)) \<and>
              greedy_claiming viou thr gts (insert k claimed) ps hs))"

definition claimed_of :: "bool list \<Rightarrow> nat set" where
  "claimed_of d = {i. i < length d \<and> d ! i}"

section \<open>A worked example\<close>

text \<open>
  Two ground-truth instances of one triplet and three predictions of it; the overlap of
  equal trajectories is 0.9, of different ones 0.6.
\<close>

definition ex_viou :: "nat viou_fn" where
  "ex_viou a da b db = (if a = b then 9 / 10 else 6 / 10)"

definition ex_gt :: "nat \<Rightarrow> nat \<Rightarrow> (nat \<times> nat \<times> nat, nat) relation" where
  "ex_gt t j = \<lparr>triplet = (t, 2, 3), sub_traj = j, obj_traj = j, duration = (0, 10)\<rparr>"

definition ex_pred :: "nat \<Rightarrow> nat \<Rightarrow> real \<Rightarrow> (nat \<times> nat \<times> nat, nat) pred_relation" where
  "ex_pred t j s = \<lparr>triplet = (t, 2, 3), sub_traj = j, obj_traj = j, duration = (0, 10), score = s\<rparr>"

definition ga :: "(nat \<times> nat \<times> nat, nat) relation" where "ga = ex_gt 1 1"
definition gb :: "(nat \<times> nat \<times> nat, nat) relation" where "gb = ex_gt 1 2"
definition pa :: "(nat \<times> nat \<times> nat, nat) pred_relation" where "pa = ex_pred 1 2 (9 / 10)"
definition pb :: "(nat \<times> nat \<times> nat, nat) pred_relation" where "pb = ex_pred 1 2 (8 / 10)"
definition pc :: "(nat \<times> nat \<times> nat, nat) pred_relation" where "pc = ex_pred 1 1 (7 / 10)"

text \<open>
  The tagging rank list as the specification words it: the predictions, in order,
  whose triplet no earlier prediction carries.  \<open>keep_first\<close> is the same walk with
  the set of triplets seen so far.
\<close>

definition retained :: "('tr, 'tj) pred_relation list \<Rightarrow> ('tr, 'tj) pred_relation list" where
  "retained ps =
     map (\<lambda>i. ps ! i)
       (filter (\<lambda>i. triplet (ps ! i) \<notin> set (map triplet (take i ps))) [0..<length ps])"

fun keep_first :: "'tr set \<Rightarrow> ('tr, 'tj) pred_relation list \<Rightarrow> ('tr, 'tj) pred_relation list" where
  "keep_first seen [] = []"
| "keep_first seen (p # ps) =
     (if triplet p \<in> seen then keep_first seen ps
      else p # keep_first (insert (triplet p) seen) ps)"

text \<open>Instances for the tagging example: only the triplet and the score vary.\<close>

definition ex_tag_gt :: "nat \<times> nat \<times> nat \<Rightarrow> (nat \<times> nat \<times> nat, nat) relation" where
  "ex_tag_gt t = \<lparr>triplet = t, sub_traj = 0, obj_traj = 0, duration = (0, 10)\<rparr>"

definition ex_tag_pred :: "nat \<times> nat \<times> nat \<Rightarrow> real \<Rightarrow> (nat \<times> nat \<times> nat, nat) pred_relation" where
  "ex_tag_pred t s = \<lparr>triplet = t, sub_traj = 0, obj_traj = 0, duration = (0, 10), score = s\<rparr>"

text \<open>
  What one video contributes: its AP, its hit scores and its tagging precision
  sequence; \<open>hits_in_top N\<close> counts the hits among the first \<open>N\<close> ranks.
\<close>

definition video_ap_of ::
  "'tj viou_fn \<Rightarrow> voc_ap_fn \<Rightarrow> real \<Rightarrow> ('tr, 'tj) relation list
    \<Rightarrow> ('tr, 'tj) pred_relation list \<Rightarrow> real" where
  "video_ap_of viou voc_ap thr g ps =
     (case eval_detection_scores viou g ps thr of (det_prec, det_rec, det_scores) \<Rightarrow>
        voc_ap det_rec det_prec)"

definition det_scores_of ::
  "'tj viou_fn \<Rightarrow> real \<Rightarrow> ('tr, 'tj) relation list \<Rightarrow> ('tr, 'tj) pred_relation list
    \<Rightarrow> npfloat list" where
  "det_scores_of viou thr g ps = snd (snd (eval_detection_scores viou g ps thr))"

definition tag_prec_of ::
  "('tr, 'tj) relation list \<Rightarrow> ('tr, 'tj) pred_relation list \<Rightarrow> real list" where
  "tag_prec_of g ps = fst (eval_tagging_scores g ps)"

text \<open>
  The tagging precision a video contributes at rank \<open>N\<close>: the precision at rank \<open>N\<close>
  when it has at least \<open>N\<close> retained triplets, the precision at its last rank when
  it has fewer but at least one, and 0 when it has none (or \<open>N = 0\<close>).
\<close>

definition prec_at_rank :: "nat \<Rightarrow> real list \<Rightarrow> real" where
  "prec_at_rank N tag_prec =
     (if N = 0 \<or> tag_prec = [] then 0
      else if N \<le> length tag_prec then tag_prec ! (N - 1)
      else last tag_prec)"

text \<open>
  The videos a call evaluates, in iteration order, each with its ground truth and
  its predictions: with \<open>base_on_gt\<close> the ground-truth entries with a non-empty list,
  otherwise the prediction entries with a non-empty list.
\<close>

type_synonym ('v, 'tr, 'tj) video = "'v \<times> ('tr, 'tj) relation list \<times> ('tr, 'tj) pred_relation list"

definition gt_videos ::
  "('v \<times> ('tr, 'tj) relation list) list \<Rightarrow> ('v \<times> ('tr, 'tj) pred_relation list) list
    \<Rightarrow> ('v, 'tr, 'tj) video list" where
  "gt_videos groundtruth prediction =
     map (\<lambda>(vid, g). (vid, g, the (map_of prediction vid)))
       (filter (\<lambda>(vid, g). g \<noteq> []) groundtruth)"

definition pred_videos ::
  "('v \<times> ('tr, 'tj) relation list) list \<Rightarrow> ('v \<times> ('tr, 'tj) pred_relation list) list
    \<Rightarrow> ('v, 'tr, 'tj) video list" where
  "pred_videos groundtruth prediction =
     map (\<lambda>(vid, ps). (vid, the (map_of groundtruth vid), ps))
       (filter (\<lambda>(vid, ps). ps \<noteq> []) prediction)"

text \<open>The accumulators after the video loop, for one rank \<open>N\<close>.\<close>

definition videos_state ::
  "'tj viou_fn \<Rightarrow> voc_ap_fn \<Rightarrow> real \<Rightarrow> nat list \<Rightarrow> nat list \<Rightarrow> nat
    \<Rightarrow> ('v, 'tr, 'tj) video list \<Rightarrow> 'v acc \<Rightarrow> 'v acc \<Rightarrow> bool" where
  "videos_state viou voc_ap thr dn tn N vs st st' \<longleftrightarrow>
     video_ap st' =
       fold (\<lambda>(key, g, ps). AList.update key (video_ap_of viou voc_ap thr g ps)) vs (video_ap st) \<and>
     tot_scores st' N = tot_scores st N @
       concat (map (\<lambda>(key, g, ps).
          replicate (count_list dn N) (take N (det_scores_of viou thr g ps))) vs) \<and>
     tot_tp st' N = tot_tp st N @
       concat (map (\<lambda>(key, g, ps).
          replicate (count_list dn N) (map isfinite (take N (det_scores_of viou thr g ps)))) vs) \<and>
     prec_at_n st' N = prec_at_n st N @
       concat (map (\<lambda>(key, g, ps).
          replicate (count_list tn N) (prec_at_rank N (tag_prec_of g ps))) vs)"


definition evaluated_videos ::
  "('v \<times> ('tr, 'tj) relation list) list \<Rightarrow> ('v \<times> ('tr, 'tj) pred_relation list) list
    \<Rightarrow> bool \<Rightarrow> ('v, 'tr, 'tj) video list" where
  "evaluated_videos groundtruth prediction base_on_gt =
     (if base_on_gt then gt_videos groundtruth prediction else pred_videos groundtruth prediction)"

section \<open>Corpus examples\<close>

text \<open>
  Modelled from the spec: \<open>voc_ap\<close> of the module \<open>common\<close>, which is not among the
  sources.  The precision at a point is replaced by the maximum precision at or
  beyond it (the envelope), and the area under the resulting step function is summed
  over the recall deltas, starting from recall 0; empty input gives 0.  It is used
  to instantiate the parameter \<open>voc_ap\<close> in the examples only.
\<close>

fun envelope :: "real list \<Rightarrow> real list" where
  "envelope [] = []"
| "envelope (p # ps) = fold max ps p # envelope ps"

fun step_area :: "real \<Rightarrow> real list \<Rightarrow> real list \<Rightarrow> real" where
  "step_area r0 (r # rs) (e # es) = (r - r0) * e + step_area r rs es"
| "step_area r0 rs es = 0"

definition voc_ap_spec :: voc_ap_fn where
  "voc_ap_spec rec prec = step_area 0 rec (envelope prec)"

text \<open>
  Instances of the corpus examples: with \<open>ex_viou\<close> every pair of them overlaps by
  0.9, so a prediction hits exactly when its triplet is the ground truth's.
\<close>

definition ex_hit_gt :: "(nat \<times> nat \<times> nat, nat) relation" where
  "ex_hit_gt = ex_tag_gt (1, 2, 3)"

definition ex_other_gt :: "(nat \<times> nat \<times> nat, nat) relation" where
  "ex_other_gt = ex_tag_gt (4, 5, 6)"

definition ex_hit_pred :: "(nat \<times> nat \<times> nat, nat) pred_relation" where
  "ex_hit_pred = ex_tag_pred (1, 2, 3) (9 / 10)"

definition ex_dup_pred :: "(nat \<times> nat \<times> nat, nat) pred_relation" where
  "ex_dup_pred = ex_tag_pred (1, 2, 3) (8 / 10)"

definition ex_miss_pred :: "(nat \<times> nat \<times> nat, nat) pred_relation" where
  "ex_miss_pred = ex_tag_pred (4, 5, 6) (7 / 10)"

definition ex_groundtruth2 :: "(string \<times> (nat \<times> nat \<times> nat, nat) relation list) list" where
  "ex_groundtruth2 = [(''A'', [ex_hit_gt]), (''B'', [ex_hit_gt])]"

definition ex_prediction2 :: "(string \<times> (nat \<times> nat \<times> nat, nat) pred_relation list) list" where
  "ex_prediction2 = [(''A'', [ex_hit_pred]), (''B'', [ex_miss_pred])]"

definition ex_groundtruth3 :: "(string \<times> (nat \<times> nat \<times> nat, nat) relation list) list" where
  "ex_groundtruth3 = [(''A'', [ex_hit_gt]), (''C'', []), (''B'', [ex_hit_gt])]"

definition ex_groundtruth1 :: "(string \<times> (nat \<times> nat \<times> nat, nat) relation list) list" where
  "ex_groundtruth1 = [(''A'', [ex_hit_gt])]"

definition ex_prediction1 :: "(string \<times> (nat \<times> nat \<times> nat, nat) pred_relation list) list" where
  "ex_prediction1 = [(''A'', [ex_hit_pred, ex_dup_pred, ex_miss_pred])]"

definition ex_seg_groundtruth :: "(string \<times> (nat \<times> nat \<times> nat, nat) relation list) list" where
  "ex_seg_groundtruth = [(''A'', [ex_hit_gt, ex_other_gt])]"

definition ex_seg_prediction :: "(string \<times> (nat \<times> nat \<times> nat, nat) pred_relation list) list" where
  "ex_seg_prediction = [(''A'', [ex_hit_pred])]"

definition ex_dataset :: "(string, nat \<times> nat \<times> nat, nat) dataset" where
  "ex_dataset =
     \<lparr>get_index = (\<lambda>split. [''A'']),
      get_relation_insts = (\<lambda>vid. [ex_hit_gt, ex_other_gt]),
      get_triplets = (\<lambda>split. if split = ''train'' then {(1, 2, 3)} else {(1, 2, 3), (4, 5, 6)})\<rparr>"

section \<open>The matcher\<close>

lemma inner_step_best:
  assumes "best_upto viou thr gts d p n st" and "n < length gts"
  shows "best_upto viou thr gts d p (Suc n) (inner_step viou thr d p st (n, gts ! n))"
proof -
  have q: "qualifies viou thr gts d p n \<longleftrightarrow>
      \<not> d ! n \<and> triplet p = triplet (gts ! n) \<and> thr \<le> overlap viou p (gts ! n)"
    using assms(2) by (simp add: qualifies_def)
  from assms(1) consider
    (none) "st = (NegInf, - 1)" "\<forall>j<n. \<not> qualifies viou thr gts d p j"
  | (some) k where "k < n" "st = (Fin (overlap viou p (gts ! k)), int k)"
      "qualifies viou thr gts d p k"
      "\<forall>j<n. qualifies viou thr gts d p j \<longrightarrow> overlap viou p (gts ! j) \<le> overlap viou p (gts ! k)"
    unfolding best_upto_def by blast
  then show ?thesis
  proof cases
    case none
    show ?thesis
    proof (cases "qualifies viou thr gts d p n")
      case True
      then have "inner_step viou thr d p st (n, gts ! n) = (Fin (overlap viou p (gts ! n)), int n)"
        using none(1) q by (simp add: inner_step_def overlap_def Let_def)
      moreover have "\<forall>j<Suc n. qualifies viou thr gts d p j \<longrightarrow>
          overlap viou p (gts ! j) \<le> overlap viou p (gts ! n)"
        using none(2) by (auto simp: less_Suc_eq)
      ultimately show ?thesis
        unfolding best_upto_def using True by (intro disjI2 exI[of _ n]) simp
    next
      case False
      then have "inner_step viou thr d p st (n, gts ! n) = st"
        using none(1) q by (auto simp: inner_step_def overlap_def Let_def)
      moreover have "\<forall>j<Suc n. \<not> qualifies viou thr gts d p j"
        using none(2) False by (auto simp: less_Suc_eq)
      ultimately show ?thesis
        unfolding best_upto_def using none(1) by simp
    qed
  next
    case some
    show ?thesis
    proof (cases "qualifies viou thr gts d p n \<and> overlap viou p (gts ! k) < overlap viou p (gts ! n)")
      case True
      then have "inner_step viou thr d p st (n, gts ! n) = (Fin (overlap viou p (gts ! n)), int n)"
        using some(2) q by (simp add: inner_step_def overlap_def Let_def)
      moreover have "\<forall>j<Suc n. qualifies viou thr gts d p j \<longrightarrow>
          overlap viou p (gts ! j) \<le> overlap viou p (gts ! n)"
        using some(4) True by (fastforce simp: less_Suc_eq)
      ultimately show ?thesis
        unfolding best_upto_def using True by (intro disjI2 exI[of _ n]) simp
    next
      case False
      then have "inner_step viou thr d p st (n, gts ! n) = st"
        using some(2) q by (auto simp: inner_step_def overlap_def Let_def)
      moreover have "\<forall>j<Suc n. qualifies viou thr gts d p j \<longrightarrow>
          overlap viou p (gts ! j) \<le> overlap viou p (gts ! k)"
        using some(4) False by (auto simp: less_Suc_eq)
      ultimately show ?thesis
        unfolding best_upto_def using some(1,2,3) by (intro disjI2 exI[of _ k]) simp
    qed
  qed
qed

lemma inner_loop_best:
  assumes "best_upto viou thr gts d p n st" and "xs = drop n gts" and "n \<le> length gts"
  shows "best_upto viou thr gts d p (length gts) (inner_loop viou thr d p (enumerate n xs) st)"
  using assms
proof (induction xs arbitrary: n st)
  case Nil
  then show ?case by simp
next
  case (Cons x xs)
  from Cons.prems(2) have n: "n < length gts"
    by (metis Cons.prems(3) drop_all le_neq_implies_less list.distinct(1) order_le_less)
  with Cons.prems(2) have x: "x = gts ! n" and xs: "xs = drop (Suc n) gts"
    by (metis Cons_nth_drop_Suc list.inject)+
  have "best_upto viou thr gts d p (Suc n) (inner_step viou thr d p st (n, x))"
    using inner_step_best[OF Cons.prems(1) n] x by simp
  from Cons.IH[OF this xs] n show ?case by simp
qed

lemma find_match_best:
  "best_upto viou thr gts d p (length gts) (find_match viou thr gts d p)"
  unfolding find_match_def
  by (rule inner_loop_best) (simp_all add: best_upto_def)

lemma find_match_miss:
  "snd (find_match viou thr gts d p) < 0 \<longleftrightarrow> (\<forall>j. \<not> qualifies viou thr gts d p j)"
  using find_match_best[of viou thr gts d p]
  unfolding best_upto_def by (auto simp: qualifies_def)

lemma find_match_hit:
  assumes "0 \<le> snd (find_match viou thr gts d p)"
  shows "qualifies viou thr gts d p (nat (snd (find_match viou thr gts d p)))"
    and "\<And>j. qualifies viou thr gts d p j \<Longrightarrow>
           overlap viou p (gts ! j) \<le> overlap viou p (gts ! nat (snd (find_match viou thr gts d p)))"
  using find_match_best[of viou thr gts d p] assms
  unfolding best_upto_def by (auto simp: qualifies_def)

lemma match_loop_trace:
  "match_loop viou thr gts (enumerate (length hs) ps) (d, hs @ replicate (length ps) NegInf)
     = (detected_after viou thr gts ps d, hs @ hits_of (claims viou thr gts ps d) ps)"
proof (induction ps arbitrary: hs d)
  case Nil
  then show ?case by (simp add: hits_of_def)
next
  case (Cons p ps)
  have upd: "(hs @ replicate (Suc (length ps)) NegInf)[length hs := x]
      = (hs @ [x]) @ replicate (length ps) NegInf" for x
    by (simp add: list_update_append)
  have keep: "hs @ replicate (Suc (length ps)) NegInf = (hs @ [NegInf]) @ replicate (length ps) NegInf"
    by simp
  show ?case
  proof (cases "0 \<le> snd (find_match viou thr gts d p)")
    case True
    then show ?thesis
      using Cons.IH[of "hs @ [Fin (score p)]" "d[nat (snd (find_match viou thr gts d p)) := True]"]
      by (simp add: Let_def upd hits_of_def del: replicate_Suc)
  next
    case False
    then show ?thesis
      using Cons.IH[of "hs @ [NegInf]" d]
      by (simp add: Let_def hits_of_def keep del: replicate_Suc)
  qed
qed

lemma length_claims [simp]: "length (claims viou thr gts ps d) = length ps"
  by (induction ps arbitrary: d) (simp_all add: Let_def)

lemma detection_hits_trace:
  "detection_hits viou thr gts preds =
     (detected_after viou thr gts (sort_by_score preds) (replicate (length gts) False),
      hits_of (claims viou thr gts (sort_by_score preds) (replicate (length gts) False))
        (sort_by_score preds))"
  using match_loop_trace[of viou thr gts "[]" "sort_by_score preds" "replicate (length gts) False"]
  by (simp add: detection_hits_def Let_def)

lemma claimed_of_replicate [simp]: "claimed_of (replicate n False) = {}"
  by (auto simp: claimed_of_def)

lemma claimed_of_update:
  "k < length d \<Longrightarrow> claimed_of (d[k := True]) = insert k (claimed_of d)"
  by (auto simp: claimed_of_def nth_list_update)

lemma set_candidates:
  "length d = length gts \<Longrightarrow>
     set (candidates viou thr gts (claimed_of d) p) = {i. qualifies viou thr gts d p i}"
  by (auto simp: candidates_def qualifies_def claimed_of_def)

lemma greedy_claims:
  "length d = length gts \<Longrightarrow>
     greedy_claiming viou thr gts (claimed_of d) ps (hits_of (claims viou thr gts ps d) ps)"
proof (induction ps arbitrary: d)
  case Nil
  then show ?case by (simp add: hits_of_def)
next
  case (Cons p ps)
  let ?k = "snd (find_match viou thr gts d p)"
  let ?cands = "candidates viou thr gts (claimed_of d) p"
  have sc: "set ?cands = {i. qualifies viou thr gts d p i}"
    using Cons.prems by (rule set_candidates)
  show ?case
  proof (cases "0 \<le> ?k")
    case False
    then have "\<forall>j. \<not> qualifies viou thr gts d p j"
      using find_match_miss[of viou thr gts d p] by simp
    with sc have "?cands = []" by (metis (no_types, lifting) empty_Collect_eq set_empty)
    then show ?thesis
      using False Cons.IH[OF Cons.prems] by (simp add: hits_of_def Let_def)
  next
    case True
    note hit = find_match_hit[OF True]
    have kin: "nat ?k \<in> set ?cands" using hit(1) sc by simp
    then have ne: "?cands \<noteq> []" by auto
    have klt: "nat ?k < length d" using hit(1) Cons.prems by (simp add: qualifies_def)
    have mx: "\<forall>j \<in> set ?cands. overlap viou p (gts ! j) \<le> overlap viou p (gts ! nat ?k)"
      using hit(2) sc by simp
    have "greedy_claiming viou thr gts (insert (nat ?k) (claimed_of d)) ps
            (hits_of (claims viou thr gts ps (d[nat ?k := True])) ps)"
      using Cons.IH[of "d[nat ?k := True]"] Cons.prems klt by (simp add: claimed_of_update)
    with kin mx ne True show ?thesis
      by (auto simp: hits_of_def Let_def)
  qed
qed

lemma sorted_sort_by_score:
  "sorted_wrt (\<lambda>a b. score b \<le> score a) (sort_by_score preds)"
proof -
  have "sorted (map (\<lambda>x. - score x) (sort_key (\<lambda>x. - score x) preds))"
    by (rule sorted_sort_key)
  then show ?thesis
    by (simp add: sort_by_score_def sorted_map)
qed

lemma mset_sort_by_score [simp]: "mset (sort_by_score preds) = mset preds"
  by (simp add: sort_by_score_def)

lemma hit_scores_trace:
  "snd (snd (eval_detection_scores viou gts preds thr)) =
     hits_of (claims viou thr gts (sort_by_score preds) (replicate (length gts) False))
       (sort_by_score preds)"
  by (simp add: eval_detection_scores_def curves_def Let_def detection_hits_trace)

text \<open>
  C1: the predictions are ranked by descending score (a permutation of the input,
  sorted), and the hit scores are those of greedy claiming along that ranking: at
  each rank the candidates are the unclaimed ground-truth instances of the same
  triplet with overlap \<open>min(s_iou, o_iou)\<close> at least the threshold; if there is none
  the rank keeps \<open>-inf\<close>, otherwise a candidate of maximal overlap is claimed and the
  rank holds the prediction's score.
\<close>

theorem eval_detection_scores_greedy:
  "mset (sort_by_score preds) = mset preds \<and>
   sorted_wrt (\<lambda>a b. score b \<le> score a) (sort_by_score preds) \<and>
   greedy_claiming viou thr gts {} (sort_by_score preds)
     (snd (snd (eval_detection_scores viou gts preds thr)))"
  using greedy_claims[of "replicate (length gts) False" gts viou thr "sort_by_score preds"]
  by (simp add: hit_scores_trace sorted_sort_by_score)

lemma claims_fresh:
  "length d = length gts \<Longrightarrow> k \<in> set (claims viou thr gts ps d) \<Longrightarrow> 0 \<le> k \<Longrightarrow>
     nat k < length gts \<and> \<not> d ! nat k"
proof (induction ps arbitrary: d)
  case Nil
  then show ?case by simp
next
  case (Cons p ps)
  let ?k = "snd (find_match viou thr gts d p)"
  show ?case
  proof (cases "k = ?k")
    case True
    with Cons.prems(3) find_match_hit(1)[of viou thr gts d p] show ?thesis
      by (simp add: qualifies_def)
  next
    case False
    let ?d' = "if 0 \<le> ?k then d[nat ?k := True] else d"
    from False Cons.prems(2) have kin: "k \<in> set (claims viou thr gts ps ?d')"
      by (simp add: Let_def)
    have len: "length ?d' = length gts" using Cons.prems(1) by simp
    from Cons.IH[OF len kin Cons.prems(3)]
    have lt: "nat k < length gts" and nd: "\<not> ?d' ! nat k" by simp_all
    have "\<not> d ! nat k"
    proof (cases "0 \<le> ?k")
      case True
      with nd lt Cons.prems(1) show ?thesis
        by (cases "nat k = nat ?k") (simp_all add: nth_list_update)
    next
      case False
      with nd show ?thesis by simp
    qed
    with lt show ?thesis by simp
  qed
qed

lemma claims_distinct:
  "length d = length gts \<Longrightarrow> distinct (filter (\<lambda>k. 0 \<le> k) (claims viou thr gts ps d))"
proof (induction ps arbitrary: d)
  case Nil
  then show ?case by simp
next
  case (Cons p ps)
  let ?k = "snd (find_match viou thr gts d p)"
  show ?case
  proof (cases "0 \<le> ?k")
    case False
    then show ?thesis using Cons.IH[OF Cons.prems] by (simp add: Let_def)
  next
    case True
    have klt: "nat ?k < length d"
      using find_match_hit(1)[OF True] Cons.prems by (simp add: qualifies_def)
    have len: "length (d[nat ?k := True]) = length gts" using Cons.prems by simp
    have "?k \<notin> set (claims viou thr gts ps (d[nat ?k := True]))"
    proof
      assume "?k \<in> set (claims viou thr gts ps (d[nat ?k := True]))"
      from claims_fresh[OF len this True] klt show False by simp
    qed
    with True Cons.IH[OF len] show ?thesis by (simp add: Let_def)
  qed
qed

lemma finite_hits_of:
  "length ks = length ps \<Longrightarrow>
     length (filter isfinite (hits_of ks ps)) = length (filter (\<lambda>k. 0 \<le> k) ks)"
proof (induction ks arbitrary: ps)
  case Nil
  then show ?case by (simp add: hits_of_def)
next
  case (Cons k ks)
  then obtain p ps' where ps: "ps = p # ps'" by (cases ps) auto
  with Cons show ?case by (simp add: hits_of_def)
qed

lemma claims_bounded:
  assumes "length d = length gts"
  shows "length (filter (\<lambda>k. 0 \<le> k) (claims viou thr gts ps d)) \<le> length gts"
proof -
  let ?ks = "filter (\<lambda>k. 0 \<le> k) (claims viou thr gts ps d)"
  have "distinct (map nat ?ks)"
    using claims_distinct[OF assms, of viou thr ps]
    by (auto simp: distinct_map inj_on_def)
  then have "length ?ks = card (set (map nat ?ks))"
    by (metis distinct_card length_map)
  also have "set (map nat ?ks) \<subseteq> {..<length gts}"
    using claims_fresh[OF assms] by auto
  then have "card (set (map nat ?ks)) \<le> card {..<length gts}"
    by (intro card_mono) auto
  finally show ?thesis by simp
qed

lemma cumsum_from_bound:
  "c \<in> set (cumsum_from a bs) \<Longrightarrow> c \<le> a + length (filter id bs)"
  by (induction bs arbitrary: a) (fastforce split: if_splits)+

lemma cumsum_bound: "c \<in> set (cumsum bs) \<Longrightarrow> c \<le> length (filter id bs)"
  using cumsum_from_bound[of c 0 bs] by (simp add: cumsum_def)

lemma recall_le_one:
  assumes "length (filter isfinite hs) \<le> n" and "r \<in> set (fst (snd (curves n hs)))"
  shows "r \<le> 1"
proof -
  from assms(2) obtain c where c: "c \<in> set (cumsum (map isfinite hs))"
    and r: "r = real c / max (real n) eps"
    by (auto simp: curves_def Let_def)
  have "c \<le> length (filter id (map isfinite hs))" using c by (rule cumsum_bound)
  also have "\<dots> = length (filter isfinite hs)" by (simp add: filter_map comp_def)
  finally have cn: "c \<le> n" using assms(1) by simp
  have "0 < max (real n) eps" by (simp add: eps_def max_def)
  moreover have "real c \<le> max (real n) eps" using cn by (simp add: max_def)
  ultimately show ?thesis using r by simp
qed

text \<open>
  C10: the ground-truth indices claimed during one call are pairwise distinct, the
  hit scores are the trace of these claims, so at most \<open>len(gt_relations)\<close> entries
  of \<open>hit_scores\<close> are finite, and every recall value is at most 1.
\<close>

theorem eval_detection_scores_claims_once:
  "distinct (filter (\<lambda>k. 0 \<le> k)
      (claims viou thr gts (sort_by_score preds) (replicate (length gts) False))) \<and>
   snd (snd (eval_detection_scores viou gts preds thr)) =
     hits_of (claims viou thr gts (sort_by_score preds) (replicate (length gts) False))
       (sort_by_score preds) \<and>
   length (filter isfinite (snd (snd (eval_detection_scores viou gts preds thr)))) \<le> length gts \<and>
   (\<forall>r \<in> set (fst (snd (eval_detection_scores viou gts preds thr))). r \<le> 1)"
proof -
  let ?d = "replicate (length gts) False"
  let ?ks = "claims viou thr gts (sort_by_score preds) ?d"
  have len: "length ?d = length gts" by simp
  have fin: "length (filter isfinite (snd (snd (eval_detection_scores viou gts preds thr)))) \<le> length gts"
    using claims_bounded[OF len, of viou thr "sort_by_score preds"]
    by (simp add: hit_scores_trace finite_hits_of)
  have "\<forall>r \<in> set (fst (snd (eval_detection_scores viou gts preds thr))). r \<le> 1"
  proof
    fix r assume "r \<in> set (fst (snd (eval_detection_scores viou gts preds thr)))"
    then have "r \<in> set (fst (snd (curves (length gts) (snd (detection_hits viou thr gts preds)))))"
      by (simp add: eval_detection_scores_def)
    moreover have "length (filter isfinite (snd (detection_hits viou thr gts preds))) \<le> length gts"
      using fin by (simp add: eval_detection_scores_def curves_def Let_def)
    ultimately show "r \<le> 1" by (rule recall_le_one[rotated])
  qed
  with fin claims_distinct[OF len, of viou thr "sort_by_score preds"] hit_scores_trace
  show ?thesis by blast
qed

section \<open>The matcher on the worked example\<close>

lemmas ex_defs = ex_viou_def ex_gt_def ex_pred_def ga_def gb_def pa_def pb_def pc_def

lemma ex_sort:
  "sort_by_score [pc, pa, pb]
     = [pa, pb, pc]"
  by (simp add: sort_by_score_def ex_defs)

lemma ex_find_match:
  "find_match ex_viou (1/2) [ga, gb] [False, False] pa = (Fin (9/10), 1)"
  "find_match ex_viou (1/2) [ga, gb] [False, True] pb = (Fin (6/10), 0)"
  "find_match ex_viou (1/2) [ga, gb] [True, True] pc = (NegInf, -1)"
  by (simp_all add: find_match_def inner_step_def ex_defs)

theorem eval_detection_scores_greedy_witness:
  "greedy_claiming ex_viou (1/2) [ga, gb] {}
     [pa, pb, pc]
     (snd (snd (eval_detection_scores ex_viou [ga, gb]
        [pc, pa, pb] (1/2)))) \<and>
   snd (snd (eval_detection_scores ex_viou [ga, gb]
        [pc, pa, pb] (1/2)))
     = [Fin (9/10), Fin (8/10), NegInf] \<and>
   fst (detection_hits ex_viou (1/2) [ga, gb] [pa]) = [False, True]"
proof -
  have "snd (snd (eval_detection_scores ex_viou [ga, gb]
        [pc, pa, pb] (1/2)))
     = [Fin (9/10), Fin (8/10), NegInf]"
    by (simp add: hit_scores_trace ex_sort ex_find_match hits_of_def) (simp add: ex_defs)
  moreover have "fst (detection_hits ex_viou (1/2) [ga, gb] [pa]) = [False, True]"
    by (simp add: detection_hits_def sort_by_score_def ex_find_match)
  ultimately show ?thesis
    using eval_detection_scores_greedy[of "[pc, pa, pb]"
        ex_viou "1/2" "[ga, gb]"]
    by (simp add: ex_sort)
qed

theorem eval_detection_scores_claims_once_witness:
  "distinct (filter (\<lambda>k. 0 \<le> k)
      (claims ex_viou (1/2) [ga, gb]
         (sort_by_score [pc, pa, pb])
         (replicate (length [ga, gb]) False))) \<and>
   claims ex_viou (1/2) [ga, gb]
         (sort_by_score [pc, pa, pb])
         (replicate (length [ga, gb]) False) = [1, 0, - 1] \<and>
   length (filter isfinite (snd (snd (eval_detection_scores ex_viou [ga, gb]
        [pc, pa, pb] (1/2)))))
     \<le> length [ga, gb] \<and>
   fst (snd (eval_detection_scores ex_viou [ga, gb]
        [pc, pa, pb] (1/2))) = [1 / 2, 1, 1]"
proof -
  have rec: "fst (snd (eval_detection_scores ex_viou [ga, gb]
        [pc, pa, pb] (1/2))) = [1 / 2, 1, 1]"
    by (simp add: eval_detection_scores_def detection_hits_trace ex_sort ex_find_match hits_of_def
        curves_def cumsum_def eps_def)
  have cl: "claims ex_viou (1/2) [ga, gb]
         (sort_by_score [pc, pa, pb])
         (replicate (length [ga, gb]) False) = [1, 0, - 1]"
    by (simp add: ex_sort ex_find_match)
  show ?thesis
    using eval_detection_scores_claims_once[of ex_viou "1/2" "[ga, gb]"
        "[pc, pa, pb]"] rec cl
    by blast
qed

section \<open>The tagger\<close>

lemma dedup_loop_keep_first:
  "dedup_loop ps (ts, hs) =
     (ts @ map triplet (keep_first (set ts) ps), hs @ map score (keep_first (set ts) ps))"
proof (induction ps arbitrary: ts hs)
  case Nil
  then show ?case by simp
next
  case (Cons p ps)
  show ?case
  proof (cases "triplet p \<in> set ts")
    case True
    then show ?thesis using Cons.IH[of ts hs] by simp
  next
    case False
    then show ?thesis using Cons.IH[of "ts @ [triplet p]" "hs @ [score p]"] by simp
  qed
qed

lemma keep_first_indices:
  "keep_first seen ps =
     map (\<lambda>i. ps ! i)
       (filter (\<lambda>i. triplet (ps ! i) \<notin> seen \<union> set (map triplet (take i ps))) [0..<length ps])"
proof (induction ps arbitrary: seen)
  case Nil
  then show ?case by simp
next
  case (Cons p ps)
  have up: "[0..<length (p # ps)] = 0 # map Suc [0..<length ps]"
    by (simp add: upt_conv_Cons map_Suc_upt del: upt_Suc)
  have tl: "map (\<lambda>i. (p # ps) ! i)
        (filter (\<lambda>i. triplet ((p # ps) ! i) \<notin> seen \<union> set (map triplet (take i (p # ps))))
           (map Suc [0..<length ps]))
      = map (\<lambda>i. ps ! i)
          (filter (\<lambda>i. triplet (ps ! i) \<notin> insert (triplet p) seen \<union> set (map triplet (take i ps)))
             [0..<length ps])"
    by (auto simp: filter_map comp_def intro!: arg_cong[where f="map ((!) ps)"] filter_cong)
  show ?case
  proof (cases "triplet p \<in> seen")
    case True
    then have "insert (triplet p) seen = seen" by auto
    with True tl Cons.IH[of seen] show ?thesis
      unfolding up by simp
  next
    case False
    with tl Cons.IH[of "insert (triplet p) seen"] show ?thesis
      unfolding up by simp
  qed
qed

lemma keep_first_retained: "keep_first {} ps = retained ps"
  by (simp add: keep_first_indices retained_def)

lemma tagging_hit_scores:
  "snd (snd (eval_tagging_scores gts preds)) =
     map (\<lambda>p. if triplet p \<in> set (map triplet gts) then Fin (score p) else NegInf)
       (retained (sort_by_score preds))"
  by (simp add: eval_tagging_scores_def Let_def dedup_loop_keep_first curves_def mark_misses_def
      zip_map_map zip_same_conv_map keep_first_retained comp_def)

text \<open>
  C5: \<open>eval_tagging_scores\<close> ranks the predictions by descending score (the
  ranking is a permutation of the predictions, sorted), retains the first occurrence
  of each distinct triplet, and gives a retained triplet its score if and only if the
  triplet is among the ground-truth triplets, \<open>-inf\<close> otherwise; on the predictions
  (1,2,3) 0.9, (1,2,3) 0.8, (4,5,6) 0.7 against the ground-truth triplet (1,2,3) the
  precision sequence is 1.0, 0.5, in this order of the input and in the reverse one.
\<close>

theorem eval_tagging_scores_dedup:
  "mset (sort_by_score preds) = mset preds \<and>
   sorted_wrt (\<lambda>a b. score b \<le> score a) (sort_by_score preds) \<and>
   snd (snd (eval_tagging_scores gts preds)) =
     map (\<lambda>p. if triplet p \<in> set (map triplet gts) then Fin (score p) else NegInf)
       (retained (sort_by_score preds)) \<and>
   fst (eval_tagging_scores [ex_tag_gt (1, 2, 3)]
          [ex_tag_pred (1, 2, 3) (9 / 10), ex_tag_pred (1, 2, 3) (8 / 10),
           ex_tag_pred (4, 5, 6) (7 / 10)]) = [1, 1 / 2] \<and>
   fst (eval_tagging_scores [ex_tag_gt (1, 2, 3)]
          [ex_tag_pred (4, 5, 6) (7 / 10), ex_tag_pred (1, 2, 3) (8 / 10),
           ex_tag_pred (1, 2, 3) (9 / 10)]) = [1, 1 / 2]"
proof -
  have "fst (eval_tagging_scores [ex_tag_gt (1, 2, 3)]
          [ex_tag_pred (1, 2, 3) (9 / 10), ex_tag_pred (1, 2, 3) (8 / 10),
           ex_tag_pred (4, 5, 6) (7 / 10)]) = [1, 1 / 2]"
    by (simp add: eval_tagging_scores_def sort_by_score_def ex_tag_gt_def ex_tag_pred_def
        mark_misses_def curves_def cumsum_def eps_def)
  moreover have "fst (eval_tagging_scores [ex_tag_gt (1, 2, 3)]
          [ex_tag_pred (4, 5, 6) (7 / 10), ex_tag_pred (1, 2, 3) (8 / 10),
           ex_tag_pred (1, 2, 3) (9 / 10)]) = [1, 1 / 2]"
    by (simp add: eval_tagging_scores_def sort_by_score_def ex_tag_gt_def ex_tag_pred_def
        mark_misses_def curves_def cumsum_def eps_def)
  ultimately show ?thesis
    using tagging_hit_scores[of gts preds] sorted_sort_by_score[of preds]
      mset_sort_by_score[of preds]
    by blast
qed

section \<open>The aggregator\<close>

lemma take_min_length [simp]: "take (min n (length xs)) xs = take n xs"
  by (simp add: min_def)

lemma take_min_length_map [simp]: "take (min n (length xs)) (map f xs) = take n (map f xs)"
  by (simp add: min_def)

lemma det_accumulate_Nil [simp]: "det_accumulate sc [] st = st"
  by (simp add: det_accumulate_def)

lemma det_accumulate_Cons:
  "det_accumulate sc (nre # dn) st =
     det_accumulate sc dn
       (st\<lparr>tot_scores := (tot_scores st)(nre := tot_scores st nre @ [take nre sc]),
           tot_tp := (tot_tp st)(nre := tot_tp st nre @ [take nre (map isfinite sc)])\<rparr>)"
  by (simp add: det_accumulate_def Let_def)

lemma det_accumulate_fields:
  "video_ap (det_accumulate sc dn st) = video_ap st"
  "prec_at_n (det_accumulate sc dn st) = prec_at_n st"
  "tot_relations (det_accumulate sc dn st) = tot_relations st"
  "tot_scores (det_accumulate sc dn st) N
     = tot_scores st N @ replicate (count_list dn N) (take N sc)"
  "tot_tp (det_accumulate sc dn st) N
     = tot_tp st N @ replicate (count_list dn N) (map isfinite (take N sc))"
  by (induction dn arbitrary: st; simp add: det_accumulate_Cons take_map replicate_app_Cons_same)+

lemma tag_accumulate_Nil [simp]: "tag_accumulate tp [] st = st"
  by (simp add: tag_accumulate_def)

lemma prec_at_rank_code:
  "prec_at_rank N tp =
     (if 0 < min N (length tp) then tp ! (min N (length tp) - 1) else 0)"
  by (auto simp: prec_at_rank_def min_def last_conv_nth)

lemma tag_accumulate_Cons:
  "tag_accumulate tp (nre # tn) st =
     tag_accumulate tp tn
       (st\<lparr>prec_at_n := (prec_at_n st)(nre := prec_at_n st nre @ [prec_at_rank nre tp])\<rparr>)"
  by (simp add: tag_accumulate_def Let_def prec_at_rank_code)

lemma tag_accumulate_fields:
  "video_ap (tag_accumulate tp tn st) = video_ap st"
  "tot_scores (tag_accumulate tp tn st) = tot_scores st"
  "tot_tp (tag_accumulate tp tn st) = tot_tp st"
  "tot_relations (tag_accumulate tp tn st) = tot_relations st"
  "prec_at_n (tag_accumulate tp tn st) N
     = prec_at_n st N @ replicate (count_list tn N) (prec_at_rank N tp)"
  by (induction tn arbitrary: st; simp add: tag_accumulate_Cons replicate_app_Cons_same)+

lemma video_body_fields:
  "video_ap (video_body viou voc_ap thr dn tn key g ps st)
     = AList.update key (video_ap_of viou voc_ap thr g ps) (video_ap st)"
  "tot_scores (video_body viou voc_ap thr dn tn key g ps st) N
     = tot_scores st N @ replicate (count_list dn N) (take N (det_scores_of viou thr g ps))"
  "tot_tp (video_body viou voc_ap thr dn tn key g ps st) N
     = tot_tp st N @ replicate (count_list dn N) (map isfinite (take N (det_scores_of viou thr g ps)))"
  "prec_at_n (video_body viou voc_ap thr dn tn key g ps st) N
     = prec_at_n st N @ replicate (count_list tn N) (prec_at_rank N (tag_prec_of g ps))"
  "tot_relations (video_body viou voc_ap thr dn tn key g ps st) = tot_relations st"
  by (simp_all add: video_body_def video_ap_of_def det_scores_of_def tag_prec_of_def Let_def
      det_accumulate_fields tag_accumulate_fields split: prod.splits)

lemma gt_videos_Cons:
  "gt_videos ((vid, g) # rest) prediction =
     (if g = [] then gt_videos rest prediction
      else (vid, g, the (map_of prediction vid)) # gt_videos rest prediction)"
  by (simp add: gt_videos_def)

lemma pred_videos_Cons:
  "pred_videos groundtruth ((vid, ps) # rest) =
     (if ps = [] then pred_videos groundtruth rest
      else (vid, the (map_of groundtruth vid), ps) # pred_videos groundtruth rest)"
  by (simp add: pred_videos_def)

lemma videos_state_Nil: "videos_state viou voc_ap thr dn tn N [] st st"
  by (simp add: videos_state_def)

lemma videos_state_Cons:
  assumes "videos_state viou voc_ap thr dn tn N vs
             (video_body viou voc_ap thr dn tn key g ps (st\<lparr>tot_relations := n\<rparr>)) st'"
  shows "videos_state viou voc_ap thr dn tn N ((key, g, ps) # vs) st st'"
  using assms by (simp add: videos_state_def video_body_fields)

lemma gt_videos_loop_state:
  "gt_videos_loop viou voc_ap thr dn tn prediction groundtruth st = Inr st' \<Longrightarrow>
     videos_state viou voc_ap thr dn tn N (gt_videos groundtruth prediction) st st' \<and>
     tot_relations st' = tot_relations st +
       sum_list (map (\<lambda>(vid, g, ps). length g) (gt_videos groundtruth prediction))"
proof (induction groundtruth arbitrary: st)
  case Nil
  then show ?case by (simp add: gt_videos_def videos_state_Nil)
next
  case (Cons a rest)
  obtain vid g where a: "a = (vid, g)" by (cases a)
  show ?case
  proof (cases "g = []")
    case True
    with Cons a show ?thesis by (simp add: gt_videos_Cons)
  next
    case False
    with Cons.prems a obtain ps where ps: "map_of prediction vid = Some ps"
      by (auto simp: Let_def split: option.splits)
    let ?st1 = "video_body viou voc_ap thr dn tn vid g ps
                  (st\<lparr>tot_relations := tot_relations st + length g\<rparr>)"
    from Cons.prems a False ps
    have "gt_videos_loop viou voc_ap thr dn tn prediction rest ?st1 = Inr st'"
      by (simp add: Let_def)
    from Cons.IH[OF this] show ?thesis
      using a False ps
      by (auto simp: gt_videos_Cons video_body_fields intro: videos_state_Cons)
  qed
qed

lemma pred_videos_loop_state:
  "pred_videos_loop viou voc_ap thr dn tn groundtruth prediction st = Inr st' \<Longrightarrow>
     videos_state viou voc_ap thr dn tn N (pred_videos groundtruth prediction) st st' \<and>
     tot_relations st' = tot_relations st +
       sum_list (map (\<lambda>(vid, g, ps). length ps) (pred_videos groundtruth prediction))"
proof (induction prediction arbitrary: st)
  case Nil
  then show ?case by (simp add: pred_videos_def videos_state_Nil)
next
  case (Cons a rest)
  obtain vid ps where a: "a = (vid, ps)" by (cases a)
  show ?case
  proof (cases "ps = []")
    case True
    with Cons a show ?thesis by (simp add: pred_videos_Cons)
  next
    case False
    with Cons.prems a obtain g where g: "map_of groundtruth vid = Some g"
      by (auto simp: Let_def split: option.splits)
    let ?st1 = "video_body viou voc_ap thr dn tn vid g ps
                  (st\<lparr>tot_relations := tot_relations st + length ps\<rparr>)"
    from Cons.prems a False g
    have "pred_videos_loop viou voc_ap thr dn tn groundtruth rest ?st1 = Inr st'"
      by (simp add: Let_def)
    from Cons.IH[OF this] show ?thesis
      using a False g
      by (auto simp: pred_videos_Cons video_body_fields intro: videos_state_Cons)
  qed
qed

lemma count_list_distinct: "distinct xs \<Longrightarrow> x \<in> set xs \<Longrightarrow> count_list xs x = 1"
  by (induction xs) auto




lemma map_fst_pred_videos:
  "map fst (pred_videos groundtruth prediction) = map fst (filter (\<lambda>(vid, ps). ps \<noteq> []) prediction)"
  by (simp add: pred_videos_def comp_def split_def)

lemma cumsum_from_Nil_iff [simp]: "cumsum_from a bs = [] \<longleftrightarrow> bs = []"
  by (cases bs) simp_all

lemma last_cumsum_from:
  "bs \<noteq> [] \<Longrightarrow> last (cumsum_from a bs) = a + length (filter id bs)"
proof (induction bs arbitrary: a)
  case Nil
  then show ?case by simp
next
  case (Cons b bs)
  then show ?case by (cases "bs = []") simp_all
qed

lemma cumsum_Nil_iff [simp]: "cumsum bs = [] \<longleftrightarrow> bs = []"
  by (simp add: cumsum_def)

lemma last_cumsum: "bs \<noteq> [] \<Longrightarrow> last (cumsum bs) = length (filter id bs)"
  by (simp add: cumsum_def last_cumsum_from)

lemma mset_argsort: "mset (argsort scores) = mset [0..<length scores]"
  unfolding argsort_def by (rule mset_sort)

lemma length_argsort [simp]: "length (argsort scores) = length scores"
  by (simp add: argsort_def)

lemma argsort_Nil_iff [simp]: "argsort scores = [] \<longleftrightarrow> scores = []"
  by (metis length_0_conv length_argsort)

text \<open>Whatever permutation sorts the scores, the last cumulative sum counts the hits.\<close>

lemma last_cumsum_perm:
  assumes "mset idx = mset [0..<length tps]" and "tps \<noteq> []"
  shows "last (cumsum (map (\<lambda>i. tps ! i) idx)) = length (filter id tps)"
proof -
  have "mset (map (\<lambda>i. tps ! i) idx) = mset (map (\<lambda>i. tps ! i) [0..<length tps])"
    using assms(1) by (simp del: mset_upt)
  also have "map (\<lambda>i. tps ! i) [0..<length tps] = tps" by (rule map_nth)
  finally have m: "mset (map (\<lambda>i. tps ! i) idx) = mset tps" .
  then have ne: "map (\<lambda>i. tps ! i) idx \<noteq> []" using assms(2) by (metis mset_zero_iff)
  have "length (filter id (map (\<lambda>i. tps ! i) idx)) = size (filter_mset id (mset (map (\<lambda>i. tps ! i) idx)))"
    by (metis mset_filter size_mset)
  also have "\<dots> = length (filter id tps)"
    unfolding m by (metis mset_filter size_mset)
  finally show ?thesis using ne by (simp add: last_cumsum)
qed

lemma recall_at_eq:
  assumes "tot_scores st N = S" and "tot_tp st N = map (map isfinite) S"
  shows "recall_at st N =
     (if S = [] then Inl ValueError
      else if concat S = [] then Inl IndexError
      else Inr (real (length (filter isfinite (concat S))) / max (real (tot_relations st)) eps))"
proof (cases "S = []")
  case True
  with assms show ?thesis by (simp add: recall_at_def np_concatenate_def)
next
  case False
  let ?scores = "concat S"
  let ?tps = "map isfinite ?scores"
  have tps: "concat (map (map isfinite) S) = ?tps" by (simp add: map_concat)
  show ?thesis
  proof (cases "?scores = []")
    case True
    with False assms tps show ?thesis
      by (simp add: recall_at_def np_concatenate_def Let_def)
  next
    case ne: False
    have idx: "mset (rev (argsort ?scores)) = mset [0..<length ?tps]"
      using mset_argsort[of ?scores] by (simp del: mset_upt)
    have tne: "?tps \<noteq> []" using ne by simp
    have "last (cumsum (map (\<lambda>i. ?tps ! i) (rev (argsort ?scores)))) = length (filter id ?tps)"
      using last_cumsum_perm[OF idx tne] .
    also have "\<dots> = length (filter isfinite ?scores)"
      by (simp add: filter_map comp_def)
    finally have lc: "last (cumsum (map (\<lambda>i. ?tps ! i) (rev (argsort ?scores))))
        = length (filter isfinite ?scores)" .
    have nonempty: "cumsum (map (\<lambda>i. ?tps ! i) (rev (argsort ?scores))) \<noteq> []"
      using ne by simp
    show ?thesis
      using False ne assms tps nonempty lc
      by (simp add: recall_at_def np_concatenate_def Let_def last_map del: map_concat)
  qed
qed

lemma recall_loop_lookup:
  "recall_loop st dn m = Inr r \<Longrightarrow>
     r N = (if N \<in> set dn then (case recall_at st N of Inr v \<Rightarrow> Some v | Inl e \<Rightarrow> None) else m N) \<and>
     (N \<in> set dn \<longrightarrow> (\<exists>v. recall_at st N = Inr v))"
proof (induction dn arbitrary: m)
  case Nil
  then show ?case by simp
next
  case (Cons nre dn)
  from Cons.prems obtain v where v: "recall_at st nre = Inr v"
    and rest: "recall_loop st dn (m(nre \<mapsto> v)) = Inr r"
    by (auto split: sum.splits)
  from Cons.IH[OF rest] v show ?case
    by (cases "N = nre") simp_all
qed

lemma mprec_loop_lookup:
  "fold (\<lambda>nre m. m(nre \<mapsto> np_mean (prec_at_n st nre))) tn m0 N =
     (if N \<in> set tn then Some (np_mean (prec_at_n st N)) else m0 N)"
  by (induction tn arbitrary: m0) auto

lemma report_Inr: "report res = Inr res' \<Longrightarrow> res' = res \<and> fst (snd res) 50 \<noteq> None"
  by (auto simp: report_def split: prod.splits if_splits)

lemma finish_Inr:
  fixes st :: "'a acc"
  assumes "finish st dn tn = Inr (mean_ap, rec_at_n, mprec_at_n)"
  shows "mean_ap = np_mean (map snd (video_ap st))"
    and "N \<in> set dn \<Longrightarrow> \<exists>v. recall_at st N = Inr v \<and> rec_at_n N = Some v"
    and "N \<in> set tn \<Longrightarrow> mprec_at_n N = Some (np_mean (prec_at_n st N))"
    and "\<exists>v. recall_at st 50 = Inr v"
proof -
  obtain r where r: "recall_loop st dn Map.empty = Inr r"
    using assms by (cases "recall_loop st dn Map.empty") (simp_all add: finish_def)
  have rep: "report (np_mean (map snd (video_ap st)), r, mprec_loop st tn)
                = (Inr (mean_ap, rec_at_n, mprec_at_n) :: 'a error + result)"
    using assms r by (simp add: finish_def)
  from report_Inr[OF rep] have eqs: "mean_ap = np_mean (map snd (video_ap st))"
    "rec_at_n = r" "mprec_at_n = mprec_loop st tn" and r50: "r 50 \<noteq> None"
    by simp_all
  show "mean_ap = np_mean (map snd (video_ap st))" by fact
  show "\<exists>v. recall_at st N = Inr v \<and> rec_at_n N = Some v" if "N \<in> set dn"
  proof -
    from that recall_loop_lookup[OF r, of N] obtain v where v: "recall_at st N = Inr v"
      and rN: "r N = (case recall_at st N of Inr v \<Rightarrow> Some v | Inl e \<Rightarrow> None)"
      by auto
    then show ?thesis using eqs(2) by simp
  qed
  show "N \<in> set tn \<Longrightarrow> mprec_at_n N = Some (np_mean (prec_at_n st N))"
    using eqs(3) by (simp add: mprec_loop_def mprec_loop_lookup)
  have "50 \<in> set dn"
  proof (rule ccontr)
    assume "50 \<notin> set dn"
    with recall_loop_lookup[OF r, of 50] have "r 50 = None" by simp
    with r50 show False by simp
  qed
  with recall_loop_lookup[OF r, of 50] show "\<exists>v. recall_at st 50 = Inr v" by blast
qed

lemma pool_once:
  "c = Suc 0 \<Longrightarrow>
     concat (map (\<lambda>(key, g, ps). replicate c (f g ps)) vs) = map (\<lambda>(key, g, ps). f g ps) vs"
  by (induction vs) auto

lemma pool_Nil_iff:
  "0 < c \<Longrightarrow> concat (map (\<lambda>(key, g, ps). replicate c (f g ps)) vs) = [] \<longleftrightarrow> vs = []"
  by (cases vs) (auto simp: neq0_conv)

lemma init_acc_fields [simp]:
  "video_ap init_acc = []" "tot_scores init_acc N = []" "tot_tp init_acc N = []"
  "prec_at_n init_acc N = []" "tot_relations init_acc = 0"
  by (simp_all add: init_acc_def)

lemma evaluate_Inr_state:
  assumes "evaluate viou voc_ap groundtruth prediction b thr dn tn = Inr res"
  shows "\<exists>st. finish st dn tn = Inr res \<and>
    (\<forall>N. videos_state viou voc_ap thr dn tn N (evaluated_videos groundtruth prediction b) init_acc st) \<and>
    (b \<longrightarrow> tot_relations st =
       sum_list (map (\<lambda>(vid, g, ps). length g) (gt_videos groundtruth prediction)))"
proof (cases b)
  case True
  with assms obtain st where
    loop: "gt_videos_loop viou voc_ap thr dn tn prediction groundtruth init_acc = Inr st"
    and fin: "finish st dn tn = Inr res"
    by (cases "gt_videos_loop viou voc_ap thr dn tn prediction groundtruth (init_acc :: 'a acc)")
       (simp_all add: evaluate_def)
  show ?thesis
    using fin gt_videos_loop_state[OF loop] True
    by (auto simp: evaluated_videos_def)
next
  case False
  with assms obtain st where
    loop: "pred_videos_loop viou voc_ap thr dn tn groundtruth prediction init_acc = Inr st"
    and fin: "finish st dn tn = Inr res"
    by (cases "pred_videos_loop viou voc_ap thr dn tn groundtruth prediction (init_acc :: 'a acc)")
       (simp_all add: evaluate_def)
  show ?thesis
    using fin pred_videos_loop_state[OF loop] False
    by (auto simp: evaluated_videos_def)
qed

lemma evaluate_Inr_videos:
  assumes "evaluate viou voc_ap groundtruth prediction b thr dn tn = Inr res"
  shows "evaluated_videos groundtruth prediction b \<noteq> []"
proof
  assume empty: "evaluated_videos groundtruth prediction b = []"
  obtain mean_ap rec_at_n mprec_at_n where res: "res = (mean_ap, rec_at_n, mprec_at_n)"
    by (cases res)
  from evaluate_Inr_state[OF assms] obtain st where fin: "finish st dn tn = Inr res"
    and vs: "\<And>N. videos_state viou voc_ap thr dn tn N (evaluated_videos groundtruth prediction b) init_acc st"
    by blast
  from vs[of 50] empty have "tot_scores st 50 = []" "tot_tp st 50 = map (map isfinite) []"
    by (simp_all add: videos_state_def)
  from recall_at_eq[OF this] have "recall_at st 50 = Inl ValueError" by simp
  with finish_Inr(4)[OF fin[unfolded res]] show False by simp
qed

lemma length_cumsum_from [simp]: "length (cumsum_from a bs) = length bs"
  by (induction bs arbitrary: a) simp_all

lemma length_tag_prec:
  "length (tag_prec_of g ps) = length (retained (sort_by_score ps))"
proof -
  have "length (fst (eval_tagging_scores g ps)) = length (snd (snd (eval_tagging_scores g ps)))"
    by (simp add: eval_tagging_scores_def Let_def curves_def cumsum_def split: prod.splits)
  then show ?thesis
    by (simp add: tag_prec_of_def tagging_hit_scores)
qed







lemma evaluate_mprec_lookup:
  assumes "evaluate viou voc_ap groundtruth prediction base_on_gt thr dn tn
             = Inr (mean_ap, rec_at_n, mprec_at_n)"
    and "distinct tn" and "N \<in> set tn"
  shows "evaluated_videos groundtruth prediction base_on_gt \<noteq> [] \<and>
     mprec_at_n N = Some (Mean
       (sum_list (map (\<lambda>(vid, g, ps). prec_at_rank N (tag_prec_of g ps))
                    (evaluated_videos groundtruth prediction base_on_gt))
        / real (length (evaluated_videos groundtruth prediction base_on_gt)))) \<and>
     (\<forall>(vid, g, ps) \<in> set (evaluated_videos groundtruth prediction base_on_gt).
        length (tag_prec_of g ps) = length (retained (sort_by_score ps)))"
proof -
  let ?vs = "evaluated_videos groundtruth prediction base_on_gt"
  from evaluate_Inr_state[OF assms(1)] obtain st where
    fin: "finish st dn tn = Inr (mean_ap, rec_at_n, mprec_at_n)"
    and vs: "videos_state viou voc_ap thr dn tn N ?vs init_acc st"
    by auto
  have ne: "?vs \<noteq> []" using evaluate_Inr_videos[OF assms(1)] .
  have c: "count_list tn N = Suc 0" using assms(2,3) by (simp add: count_list_distinct)
  have "prec_at_n st N = map (\<lambda>(key, g, ps). prec_at_rank N (tag_prec_of g ps)) ?vs"
    using vs pool_once[OF c, of "\<lambda>g ps. prec_at_rank N (tag_prec_of g ps)" ?vs]
    by (simp add: videos_state_def)
  with finish_Inr(3)[OF fin assms(3)] ne show ?thesis
    by (simp add: np_mean_def length_tag_prec split_def)
qed

lemma gt_videos_loop_returns:
  assumes "\<forall>(vid, g) \<in> set groundtruth. g \<noteq> [] \<longrightarrow> map_of prediction vid \<noteq> None"
  shows "\<exists>st'. gt_videos_loop viou voc_ap thr dn tn prediction groundtruth st = Inr st'"
  using assms
proof (induction groundtruth arbitrary: st)
  case Nil
  then show ?case by simp
next
  case (Cons a rest)
  obtain vid g where a: "a = (vid, g)" by (cases a)
  from Cons.prems have rest: "\<forall>(vid, g) \<in> set rest. g \<noteq> [] \<longrightarrow> map_of prediction vid \<noteq> None"
    by simp
  show ?case
  proof (cases "g = []")
    case True
    with Cons.IH[OF rest] a show ?thesis by simp
  next
    case False
    with Cons.prems a obtain ps where "map_of prediction vid = Some ps" by auto
    with Cons.IH[OF rest] a False show ?thesis by (simp add: Let_def)
  qed
qed

lemma recall_loop_returns:
  "\<forall>N \<in> set dn. \<exists>v. recall_at st N = Inr v \<Longrightarrow> \<exists>r. recall_loop st dn m = Inr r"
proof (induction dn arbitrary: m)
  case Nil
  then show ?case by simp
next
  case (Cons nre dn)
  then obtain v where "recall_at st nre = Inr v" by auto
  with Cons show ?case by simp
qed

lemma finish_returns:
  assumes "\<forall>N \<in> set dn. \<exists>v. recall_at st N = Inr v"
    and "50 \<in> set dn" "100 \<in> set dn" "1 \<in> set tn" "5 \<in> set tn" "10 \<in> set tn"
  shows "\<exists>res. finish st dn tn = Inr res"
proof -
  from recall_loop_returns[OF assms(1)] obtain r where r: "recall_loop st dn Map.empty = Inr r"
    by blast
  have "r 50 \<noteq> None" "r 100 \<noteq> None"
    using recall_loop_lookup[OF r, of 50] recall_loop_lookup[OF r, of 100] assms(2,3) by auto
  moreover have "mprec_loop st tn 1 \<noteq> None" "mprec_loop st tn 5 \<noteq> None" "mprec_loop st tn 10 \<noteq> None"
    using assms(4,5,6) by (simp_all add: mprec_loop_def mprec_loop_lookup)
  ultimately show ?thesis using r by (simp add: finish_def report_def)
qed

lemma length_det_scores: "length (det_scores_of viou thr g ps) = length ps"
proof -
  have "length (sort_by_score ps) = length ps" by (simp add: sort_by_score_def)
  then show ?thesis
    by (simp add: det_scores_of_def hit_scores_trace hits_of_def)
qed

lemma pooled_Nil_iff:
  "concat (concat (map (\<lambda>(key, g, ps). replicate c (f g ps)) vs)) = [] \<longleftrightarrow>
     c = 0 \<or> (\<forall>(key, g, ps) \<in> set vs. f g ps = [])"
  by (induction vs) auto

lemma pooled_tp:
  "concat (map (\<lambda>(key, g, ps). replicate c (map h (f g ps))) vs)
     = map (map h) (concat (map (\<lambda>(key, g, ps). replicate c (f g ps)) vs))"
  by (induction vs) auto

lemma evaluate_returns:
  assumes "\<forall>(vid, g) \<in> set groundtruth. g \<noteq> [] \<longrightarrow> map_of prediction vid \<noteq> None"
    and "\<exists>(vid, g, ps) \<in> set (gt_videos groundtruth prediction). ps \<noteq> []"
    and "0 \<notin> set dn" "50 \<in> set dn" "100 \<in> set dn" "1 \<in> set tn" "5 \<in> set tn" "10 \<in> set tn"
  shows "\<exists>res. evaluate viou voc_ap groundtruth prediction True thr dn tn = Inr res"
proof -
  let ?vs = "gt_videos groundtruth prediction"
  from gt_videos_loop_returns[OF assms(1)] obtain st where
    loop: "gt_videos_loop viou voc_ap thr dn tn prediction groundtruth init_acc = Inr st"
    by blast
  have rec: "\<exists>v. recall_at st N = Inr v" if N: "N \<in> set dn" for N
  proof -
    let ?S = "concat (map (\<lambda>(key, g, ps).
        replicate (count_list dn N) (take N (det_scores_of viou thr g ps))) ?vs)"
    have c: "0 < count_list dn N" using N count_list_0_iff[of dn N] by (cases "count_list dn N") simp_all
    have Npos: "0 < N" using N assms(3) by (metis neq0_conv)
    from gt_videos_loop_state[OF loop, of N]
    have S: "tot_scores st N = ?S" and T: "tot_tp st N = map (map isfinite) ?S"
      by (simp_all add: videos_state_def pooled_tp)
    from assms(2) obtain vid g ps where v: "(vid, g, ps) \<in> set ?vs" "ps \<noteq> []" by auto
    then have "take N (det_scores_of viou thr g ps) \<noteq> []"
      using Npos length_det_scores[of viou thr g ps] by (cases "det_scores_of viou thr g ps"; cases N) auto
    with v(1) c have ne: "concat ?S \<noteq> []"
      unfolding pooled_Nil_iff by (auto intro!: bexI[of _ "(vid, g, ps)"])
    have "?S \<noteq> []"
    proof
      assume "?S = []"
      then have "concat ?S = []" by (simp only: concat.simps)
      with ne show False by simp
    qed
    with ne show ?thesis unfolding recall_at_eq[OF S T] by simp
  qed
  then have "\<exists>res. finish st dn tn = Inr res"
    using assms(4-8) by (intro finish_returns) auto
  then show ?thesis using loop by (simp add: evaluate_def)
qed

text \<open>
  C4 (amended): when \<open>evaluate\<close> returns, \<open>mprec_at_n[N]\<close> is the mean over the
  evaluated videos of \<open>prec_at_rank N\<close> of the video's tagging precision sequence,
  whose length is the number of retained triplets: a video with fewer than \<open>N\<close> but
  at least one retained triplet contributes the precision at its last rank, and
  only a video with no retained triplet contributes 0.
\<close>

theorem evaluate_mprec_at_n:
  assumes "evaluate viou voc_ap groundtruth prediction base_on_gt thr dn tn
             = Inr (mean_ap, rec_at_n, mprec_at_n)"
    and "distinct tn" and "N \<in> set tn"
  shows "evaluated_videos groundtruth prediction base_on_gt \<noteq> [] \<and>
     mprec_at_n N = Some (Mean
       (sum_list (map (\<lambda>(vid, g, ps). prec_at_rank N (tag_prec_of g ps))
                    (evaluated_videos groundtruth prediction base_on_gt))
        / real (length (evaluated_videos groundtruth prediction base_on_gt)))) \<and>
     (\<forall>(vid, g, ps) \<in> set (evaluated_videos groundtruth prediction base_on_gt).
        length (tag_prec_of g ps) = length (retained (sort_by_score ps)))"
  using assms by (rule evaluate_mprec_lookup)

section \<open>Corpus examples of the aggregator\<close>

lemmas ex_inst_defs = ex_hit_gt_def ex_other_gt_def ex_hit_pred_def ex_dup_pred_def ex_miss_pred_def
  ex_tag_gt_def ex_tag_pred_def ex_viou_def

lemmas det_defs = eval_detection_scores_def detection_hits_def sort_by_score_def find_match_def
  inner_step_def curves_def cumsum_def eps_def

lemmas tag_defs = eval_tagging_scores_def sort_by_score_def mark_misses_def curves_def cumsum_def
  eps_def

lemma ex_det:
  "eval_detection_scores ex_viou [ex_hit_gt] [ex_hit_pred] (1 / 2) = ([1], [1], [Fin (9 / 10)])"
  "eval_detection_scores ex_viou [ex_hit_gt] [ex_miss_pred] (1 / 2) = ([0], [0], [NegInf])"
  "eval_detection_scores ex_viou [ex_other_gt] [ex_hit_pred] (1 / 2) = ([0], [0], [NegInf])"
  "eval_detection_scores ex_viou [ex_hit_gt] [] (1 / 2) = ([], [], [])"
  "eval_detection_scores ex_viou [ex_hit_gt] [ex_hit_pred, ex_dup_pred, ex_miss_pred] (1 / 2)
     = ([1, 1 / 2, 1 / 3], [1, 1, 1], [Fin (9 / 10), NegInf, NegInf])"
  by (simp_all add: det_defs ex_inst_defs Let_def)

lemma ex_tag:
  "eval_tagging_scores [ex_hit_gt] [ex_hit_pred] = ([1], [1], [Fin (9 / 10)])"
  "eval_tagging_scores [ex_hit_gt] [ex_miss_pred] = ([0], [0], [NegInf])"
  "eval_tagging_scores [ex_other_gt] [ex_hit_pred] = ([0], [0], [NegInf])"
  "eval_tagging_scores [ex_hit_gt] [] = ([], [], [])"
  "eval_tagging_scores [ex_hit_gt] [ex_hit_pred, ex_dup_pred, ex_miss_pred]
     = ([1, 1 / 2], [1, 1], [Fin (9 / 10), NegInf])"
  by (simp_all add: tag_defs ex_inst_defs Let_def)

lemma ex_voc_ap:
  "voc_ap_spec [1] [1] = 1" "voc_ap_spec [0] [0] = 0" "voc_ap_spec [] [] = 0"
  "voc_ap_spec [1, 1, 1] [1, 1 / 2, 1 / 3] = 1"
  by (simp_all add: voc_ap_spec_def)

lemmas ex_corpus_defs = ex_groundtruth1_def ex_groundtruth2_def ex_groundtruth3_def
  ex_prediction1_def ex_prediction2_def

lemma ex_videos:
  "gt_videos ex_groundtruth2 ex_prediction2
     = [(''A'', [ex_hit_gt], [ex_hit_pred]), (''B'', [ex_hit_gt], [ex_miss_pred])]"
  "gt_videos ex_groundtruth3 ex_prediction2
     = [(''A'', [ex_hit_gt], [ex_hit_pred]), (''B'', [ex_hit_gt], [ex_miss_pred])]"
  "gt_videos ex_groundtruth1 ex_prediction1
     = [(''A'', [ex_hit_gt], [ex_hit_pred, ex_dup_pred, ex_miss_pred])]"
  by (simp_all add: gt_videos_def ex_corpus_defs)

lemma ex_returns:
  "\<exists>res. evaluate ex_viou voc_ap_spec ex_groundtruth2 ex_prediction2 True (1 / 2)
      [50, 100] [1, 5, 10] = Inr res"
  "\<exists>res. evaluate ex_viou voc_ap_spec ex_groundtruth3 ex_prediction2 True (1 / 2)
      [50, 100] [1, 5, 10] = Inr res"
  "\<exists>res. evaluate ex_viou voc_ap_spec ex_groundtruth1 ex_prediction1 True (1 / 2)
      [50, 100] [1, 5, 10] = Inr res"
  by (rule evaluate_returns; simp add: ex_videos; simp add: ex_corpus_defs)+



theorem evaluate_mprec_at_n_witness:
  "\<exists>mean_ap rec_at_n mprec_at_n.
     evaluate ex_viou voc_ap_spec ex_groundtruth2 ex_prediction2 True (1 / 2) [50, 100] [1, 5, 10]
       = Inr (mean_ap, rec_at_n, mprec_at_n) \<and>
     mprec_at_n 5 = Some (Mean (1 / 2))"
proof -
  from ex_returns(1) obtain m r mp where
    e: "evaluate ex_viou voc_ap_spec ex_groundtruth2 ex_prediction2 True (1 / 2) [50, 100] [1, 5, 10]
          = Inr (m, r, mp)"
    by (metis prod_cases3)
  from evaluate_mprec_at_n[OF e, of 5] have "mp 5 = Some (Mean (1 / 2))"
    by (simp add: evaluated_videos_def ex_videos tag_prec_of_def ex_tag prec_at_rank_def)
  with e show ?thesis by blast
qed

theorem evaluate_mprec_at_n_counterexample:
  "length (retained (sort_by_score [ex_hit_pred, ex_dup_pred, ex_miss_pred])) = 2 \<and>
   (\<exists>mean_ap rec_at_n mprec_at_n.
      evaluate ex_viou voc_ap_spec ex_groundtruth1 ex_prediction1 True (1 / 2) [50, 100] [1, 5, 10]
        = Inr (mean_ap, rec_at_n, mprec_at_n) \<and>
      mprec_at_n 5 = Some (Mean (1 / 2)) \<and> mprec_at_n 5 \<noteq> Some (Mean 0))"
proof -
  from ex_returns(3) obtain m r mp where
    e: "evaluate ex_viou voc_ap_spec ex_groundtruth1 ex_prediction1 True (1 / 2) [50, 100] [1, 5, 10]
          = Inr (m, r, mp)"
    by (metis prod_cases3)
  from evaluate_mprec_lookup[OF e, of 5] have "mp 5 = Some (Mean (1 / 2))"
    by (simp add: evaluated_videos_def ex_videos tag_prec_of_def ex_tag prec_at_rank_def)
  moreover have "length (retained (sort_by_score [ex_hit_pred, ex_dup_pred, ex_miss_pred])) = 2"
    using length_tag_prec[of "[ex_hit_gt]" "[ex_hit_pred, ex_dup_pred, ex_miss_pred]"]
    by (simp add: tag_prec_of_def ex_tag)
  ultimately show ?thesis using e by auto
qed




section \<open>Missing videos\<close>

lemma gt_videos_loop_missing:
  assumes "(vid, g) \<in> set groundtruth" and "g \<noteq> []" and "map_of prediction vid = None"
  shows "\<exists>v. gt_videos_loop viou voc_ap thr dn tn prediction groundtruth st = Inl (KeyError v) \<and>
           map_of prediction v = None"
  using assms(1)
proof (induction groundtruth arbitrary: st)
  case Nil
  then show ?case by simp
next
  case (Cons a rest)
  obtain vid' g' where a: "a = (vid', g')" by (cases a)
  show ?case
  proof (cases "g' = []")
    case True
    with Cons.prems a assms(2) have "(vid, g) \<in> set rest" by auto
    from Cons.IH[OF this] True a show ?thesis by simp
  next
    case False
    show ?thesis
    proof (cases "map_of prediction vid'")
      case None
      with False a show ?thesis by (simp add: Let_def)
    next
      case (Some ps)
      with Cons.prems a assms(3) have "(vid, g) \<in> set rest" by auto
      from Cons.IH[OF this] False a Some show ?thesis by (simp add: Let_def)
    qed
  qed
qed

text \<open>
  C8 (amended): in \<open>evaluate\<close> with \<open>base_on_gt=True\<close>, a video ID that the ground
  truth holds with a non-empty relation list and the prediction mapping does not
  hold makes the call raise \<open>KeyError\<close> at the lookup \<open>prediction[vid]\<close>; the caller
  has to supply every such video ID, with an empty list if it has no prediction.
\<close>

theorem evaluate_missing_video:
  assumes "(vid, g) \<in> set groundtruth" and "g \<noteq> []" and "map_of prediction vid = None"
  shows "\<exists>v. evaluate viou voc_ap groundtruth prediction True thr dn tn = Inl (KeyError v) \<and>
           map_of prediction v = None"
proof -
  from gt_videos_loop_missing[OF assms] obtain v where
    "gt_videos_loop viou voc_ap thr dn tn prediction groundtruth init_acc = Inl (KeyError v)"
    "map_of prediction v = None"
    by blast
  then show ?thesis by (auto simp: evaluate_def)
qed

theorem evaluate_missing_video_witness:
  "(''B'', [ex_hit_gt]) \<in> set ex_groundtruth2 \<and> [ex_hit_gt] \<noteq> [] \<and>
   map_of [(''A'', [ex_hit_pred])] ''B'' = None \<and>
   (\<exists>v. evaluate ex_viou voc_ap_spec ex_groundtruth2 [(''A'', [ex_hit_pred])] True (1 / 2)
           [50, 100] [1, 5, 10] = Inl (KeyError v) \<and>
        map_of [(''A'', [ex_hit_pred])] v = None)"
proof -
  have h: "(''B'', [ex_hit_gt]) \<in> set ex_groundtruth2" "[ex_hit_gt] \<noteq> []"
    "map_of [(''A'', [ex_hit_pred])] ''B'' = None"
    by (simp_all add: ex_groundtruth2_def)
  from evaluate_missing_video[OF h] h show ?thesis by blast
qed

theorem evaluate_missing_video_counterexample:
  "map_of [(''A'', [ex_hit_pred])] ''B'' = None \<and>
   evaluate ex_viou voc_ap_spec ex_groundtruth2 [(''A'', [ex_hit_pred])] True (1 / 2)
     [50, 100] [1, 5, 10] = Inl (KeyError ''B'') \<and>
   (\<exists>res. evaluate ex_viou voc_ap_spec ex_groundtruth2 [(''A'', [ex_hit_pred]), (''B'', [])] True
      (1 / 2) [50, 100] [1, 5, 10] = Inr res)"
proof -
  have "evaluate ex_viou voc_ap_spec ex_groundtruth2 [(''A'', [ex_hit_pred])] True (1 / 2)
     [50, 100] [1, 5, 10] = Inl (KeyError ''B'')"
    by (simp add: evaluate_def ex_groundtruth2_def)
  moreover have "\<exists>res. evaluate ex_viou voc_ap_spec ex_groundtruth2
      [(''A'', [ex_hit_pred]), (''B'', [])] True (1 / 2) [50, 100] [1, 5, 10] = Inr res"
    by (rule evaluate_returns) (simp_all add: gt_videos_def ex_groundtruth2_def)
  ultimately show ?thesis by simp
qed

section \<open>The segment aggregator\<close>

text \<open>
  C7: \<open>evaluate_segs\<close> with \<open>base_on_gt=True\<close> stops with \<open>SystemExit\<close> on every
  input; it returns no result and runs no other computation.
\<close>

theorem evaluate_segs_base_on_gt_exits:
  "evaluate_segs viou voc_ap groundtruth prediction True viou_threshold det_nreturns tag_nreturns
     = Inl (SystemExit 0)"
  by (simp add: evaluate_segs_def)

text \<open>
  C6: one video with two ground-truth segments and one prediction.  The AP of the
  first segment is 1 and of the second 0, and \<open>evaluate_segs\<close> returns \<open>mean_ap = 0\<close>:
  \<open>seg_ap[vid]\<close> is keyed by the video, so the second segment overwrites the first
  and one AP value per video enters the mean, not one per segment.
\<close>

theorem evaluate_segs_keeps_last_ap:
  "video_ap_of ex_viou voc_ap_spec (1 / 2) [ex_hit_gt] [ex_hit_pred] = 1 \<and>
   video_ap_of ex_viou voc_ap_spec (1 / 2) [ex_other_gt] [ex_hit_pred] = 0 \<and>
   (\<exists>rec_at_n mprec_at_n.
      evaluate_segs ex_viou voc_ap_spec ex_seg_groundtruth ex_seg_prediction False (1 / 2)
        [50, 100] [1, 5, 10] = Inr (Mean 0, rec_at_n, mprec_at_n))"
proof -
  define st :: "string acc" where
    "st = video_body ex_viou voc_ap_spec (1 / 2) [50, 100] [1, 5, 10] ''A'' [ex_other_gt] [ex_hit_pred]
            (video_body ex_viou voc_ap_spec (1 / 2) [50, 100] [1, 5, 10] ''A'' [ex_hit_gt] [ex_hit_pred]
               (init_acc\<lparr>tot_relations := 1\<rparr>))"
  have ev: "evaluate_segs ex_viou voc_ap_spec ex_seg_groundtruth ex_seg_prediction False (1 / 2)
        [50, 100] [1, 5, 10] = finish st [50, 100] [1, 5, 10]"
    by (simp add: evaluate_segs_def ex_seg_groundtruth_def ex_seg_prediction_def st_def)
  have ap: "video_ap_of ex_viou voc_ap_spec (1 / 2) [ex_hit_gt] [ex_hit_pred] = 1"
    "video_ap_of ex_viou voc_ap_spec (1 / 2) [ex_other_gt] [ex_hit_pred] = 0"
    by (simp_all add: video_ap_of_def ex_det ex_voc_ap)
  have vap: "video_ap st = [(''A'', 0)]"
    by (simp add: st_def video_body_fields ap)
  have S: "tot_scores st N = [take N [Fin (9 / 10)], take N [NegInf]]"
    "tot_tp st N = map (map isfinite) [take N [Fin (9 / 10)], take N [NegInf]]"
    if "N = 50 \<or> N = 100" for N
    using that by (auto simp: st_def video_body_fields det_scores_of_def ex_det)
  have "\<exists>v. recall_at st N = Inr v" if "N = 50 \<or> N = 100" for N
    unfolding recall_at_eq[OF S[OF that]] using that by auto
  then have "\<exists>res. finish st [50, 100] [1, 5, 10] = Inr res"
    by (intro finish_returns) auto
  then obtain m r mp where fin: "finish st [50, 100] [1, 5, 10] = Inr (m, r, mp)"
    by (metis prod_cases3)
  from finish_Inr(1)[OF fin] vap have "m = Mean 0" by (simp add: np_mean_def)
  with fin ev ap show ?thesis by auto
qed

section \<open>The zero-shot inputs\<close>

lemma update_preserves:
  "\<forall>(k', rs) \<in> set al. P rs \<Longrightarrow> P v \<Longrightarrow> \<forall>(k', rs) \<in> set (AList.update k v al). P rs"
  by (induction al) auto

lemma zeroshot_loop_Cons:
  "zeroshot_loop dataset Z prediction (vid # rest) (groundtruth, zs_prediction) =
     (if filter (\<lambda>r. triplet r \<in> Z) (get_relation_insts dataset vid) = []
      then zeroshot_loop dataset Z prediction rest (groundtruth, zs_prediction)
      else case map_of prediction vid of
             None \<Rightarrow> Inl (KeyError vid)
           | Some rs \<Rightarrow>
               zeroshot_loop dataset Z prediction rest
                 (AList.update vid (filter (\<lambda>r. triplet r \<in> Z) (get_relation_insts dataset vid))
                    groundtruth,
                  AList.update vid (filter (\<lambda>r. triplet r \<in> Z) rs) zs_prediction))"
  by (simp add: Let_def)

lemma zeroshot_loop_filtered:
  assumes "zeroshot_loop dataset Z prediction vids (groundtruth, zs_prediction) = Inr (groundtruth', zs_prediction')"
    and "\<forall>(vid, rs) \<in> set groundtruth. \<forall>r \<in> set rs. triplet r \<in> Z"
    and "\<forall>(vid, rs) \<in> set zs_prediction. \<forall>r \<in> set rs. triplet r \<in> Z"
  shows "(\<forall>(vid, rs) \<in> set groundtruth'. \<forall>r \<in> set rs. triplet r \<in> Z) \<and>
         (\<forall>(vid, rs) \<in> set zs_prediction'. \<forall>r \<in> set rs. triplet r \<in> Z)"
  using assms
proof (induction vids arbitrary: groundtruth zs_prediction)
  case Nil
  then show ?case by simp
next
  case (Cons vid rest)
  let ?zs = "filter (\<lambda>r. triplet r \<in> Z) (get_relation_insts dataset vid)"
  note step = Cons.prems(1)[unfolded zeroshot_loop_Cons]
  show ?case
  proof (cases "?zs = []")
    case True
    with step
    have "zeroshot_loop dataset Z prediction rest (groundtruth, zs_prediction)
        = Inr (groundtruth', zs_prediction')"
      by simp
    from Cons.IH[OF this Cons.prems(2,3)] show ?thesis .
  next
    case False
    with step have step': "(case map_of prediction vid of
             None \<Rightarrow> Inl (KeyError vid)
           | Some rs \<Rightarrow>
               zeroshot_loop dataset Z prediction rest
                 (AList.update vid ?zs groundtruth,
                  AList.update vid (filter (\<lambda>r. triplet r \<in> Z) rs) zs_prediction))
        = Inr (groundtruth', zs_prediction')"
      by simp
    then obtain rs where rs: "map_of prediction vid = Some rs"
      by (cases "map_of prediction vid") simp_all
    let ?g = "AList.update vid ?zs groundtruth"
    let ?p = "AList.update vid (filter (\<lambda>r. triplet r \<in> Z) rs) zs_prediction"
    from step' rs
    have loop: "zeroshot_loop dataset Z prediction rest (?g, ?p) = Inr (groundtruth', zs_prediction')"
      by simp
    have g: "\<forall>(vid, rs) \<in> set ?g. \<forall>r \<in> set rs. triplet r \<in> Z"
      by (rule update_preserves[where P="\<lambda>rs. \<forall>r \<in> set rs. triplet r \<in> Z", OF Cons.prems(2)]) simp
    have p: "\<forall>(vid, rs) \<in> set ?p. \<forall>r \<in> set rs. triplet r \<in> Z"
      by (rule update_preserves[where P="\<lambda>rs. \<forall>r \<in> set rs. triplet r \<in> Z", OF Cons.prems(3)]) simp
    from Cons.IH[OF loop g p] show ?thesis .
  qed
qed

text \<open>
  The zero-shot pass of \<open>evaluate_relation\<close> hands exactly these inputs to the
  evaluator.
\<close>

lemma evaluate_relation_zeroshot_call:
  assumes "evaluate_relation eval_visual_relation eval_visual_relation_segs dataset split
             prediction segment = Inr ()"
  shows "\<exists>groundtruth zs_prediction res.
           zeroshot_inputs dataset split prediction = Inr (groundtruth, zs_prediction) \<and>
           (if segment then eval_visual_relation_segs groundtruth zs_prediction
            else eval_visual_relation groundtruth zs_prediction) = Inr res"
  using assms
  by (simp add: evaluate_relation_def Let_def split: sum.splits prod.splits if_splits)
     (metis prod_cases3)+

text \<open>
  C9: every ground-truth and every predicted relation instance in the inputs of the
  zero-shot pass carries a triplet of the evaluated split that is not in the train
  vocabulary, so the triplets of both filtered inputs are disjoint from the train
  vocabulary.
\<close>

theorem zeroshot_inputs_exclude_train:
  assumes "zeroshot_inputs dataset split prediction = Inr (groundtruth, zs_prediction)"
  shows "(\<forall>(vid, rs) \<in> set groundtruth. \<forall>r \<in> set rs.
            triplet r \<in> get_triplets dataset split \<and> triplet r \<notin> get_triplets dataset ''train'') \<and>
         (\<forall>(vid, rs) \<in> set zs_prediction. \<forall>r \<in> set rs.
            triplet r \<in> get_triplets dataset split \<and> triplet r \<notin> get_triplets dataset ''train'') \<and>
         (\<Union>(vid, rs) \<in> set groundtruth. triplet ` set rs) \<inter> get_triplets dataset ''train'' = {} \<and>
         (\<Union>(vid, rs) \<in> set zs_prediction. triplet ` set rs) \<inter> get_triplets dataset ''train'' = {}"
proof -
  let ?Z = "get_triplets dataset split - get_triplets dataset ''train''"
  from assms have loop: "zeroshot_loop dataset ?Z prediction (get_index dataset split) ([], [])
      = Inr (groundtruth, zs_prediction)"
    by (simp add: zeroshot_inputs_def Let_def)
  have inv: "(\<forall>(vid, rs) \<in> set groundtruth. \<forall>r \<in> set rs. triplet r \<in> ?Z) \<and>
         (\<forall>(vid, rs) \<in> set zs_prediction. \<forall>r \<in> set rs. triplet r \<in> ?Z)"
    by (rule zeroshot_loop_filtered[OF loop]) simp_all
  then have g: "\<And>vid rs r. (vid, rs) \<in> set groundtruth \<Longrightarrow> r \<in> set rs \<Longrightarrow> triplet r \<in> ?Z"
    and p: "\<And>vid rs r. (vid, rs) \<in> set zs_prediction \<Longrightarrow> r \<in> set rs \<Longrightarrow> triplet r \<in> ?Z"
    by blast+
  have "\<forall>(vid, rs) \<in> set groundtruth. \<forall>r \<in> set rs.
          triplet r \<in> get_triplets dataset split \<and> triplet r \<notin> get_triplets dataset ''train''"
    using g by auto
  moreover have "\<forall>(vid, rs) \<in> set zs_prediction. \<forall>r \<in> set rs.
          triplet r \<in> get_triplets dataset split \<and> triplet r \<notin> get_triplets dataset ''train''"
    using p by auto
  moreover have "(\<Union>(vid, rs) \<in> set groundtruth. triplet ` set rs) \<inter> get_triplets dataset ''train'' = {}"
    using g by auto
  moreover have "(\<Union>(vid, rs) \<in> set zs_prediction. triplet ` set rs) \<inter> get_triplets dataset ''train'' = {}"
    using p by auto
  ultimately show ?thesis by (intro conjI)
qed

theorem zeroshot_inputs_exclude_train_witness:
  "zeroshot_inputs ex_dataset ''test'' [(''A'', [ex_hit_pred, ex_miss_pred])]
     = Inr ([(''A'', [ex_other_gt])], [(''A'', [ex_miss_pred])]) \<and>
   triplet ex_hit_gt \<in> get_triplets ex_dataset ''test'' \<inter> get_triplets ex_dataset ''train'' \<and>
   (\<Union>(vid, rs) \<in> set [(''A'', [ex_other_gt])]. triplet ` set rs)
      \<inter> get_triplets ex_dataset ''train'' = {} \<and>
   (\<Union>(vid, rs) \<in> set [(''A'', [ex_miss_pred])]. triplet ` set rs)
      \<inter> get_triplets ex_dataset ''train'' = {}"
proof -
  have z: "zeroshot_inputs ex_dataset ''test'' [(''A'', [ex_hit_pred, ex_miss_pred])]
     = Inr ([(''A'', [ex_other_gt])], [(''A'', [ex_miss_pred])])"
    by (simp add: zeroshot_inputs_def ex_dataset_def Let_def ex_inst_defs)
  have h: "triplet ex_hit_gt \<in> get_triplets ex_dataset ''test'' \<inter> get_triplets ex_dataset ''train''"
    by (simp add: ex_dataset_def ex_inst_defs)
  note t = zeroshot_inputs_exclude_train[OF z]
  show ?thesis
    by (intro conjI z h t[THEN conjunct2, THEN conjunct2, THEN conjunct1]
        t[THEN conjunct2, THEN conjunct2, THEN conjunct2])
qed

end
